theory Spec2Isabelle
  imports Main "HOL-Library.Word"
begin

section \<open>Data model of \<^verbatim>\<open>sudoku.py\<close>\<close>

text \<open>
  The solver of \<^verbatim>\<open>class SudokuSolver\<close> works on two numpy arrays: \<^verbatim>\<open>puzzle_2d\<close>, the
  9x9 array of digits (0 for an unknown cell), and \<^verbatim>\<open>options_3d\<close>, the 9x9x9 array
  \<^verbatim>\<open>[row][column][depth]\<close> whose entry is 1 when digit \<^verbatim>\<open>depth + 1\<close> is still a candidate
  of the cell. Arrays are nested lists here; the entries are integers (the arrays are
  \<^verbatim>\<open>np.byte\<close> and hold 0..9, and numpy sums them in 64 bits, so that no sum of the
  program leaves the range; the one product that does is a 64-bit word below).
  Exceptions are values of \<open>error\<close>; the \<^verbatim>\<open>isinstance\<close> check of \<^verbatim>\<open>validate_solution\<close>
  is settled by the type of its argument.
\<close>

type_synonym grid = "int list list"
type_synonym cube = "int list list list"

datatype error = ValueError | TypeError | RuntimeError | StopIteration

subsection \<open>numpy helpers\<close>

definition shape_is :: "nat \<Rightarrow> nat \<Rightarrow> nat \<Rightarrow> cube \<Rightarrow> bool" where
  "shape_is l m n a =
     (length a = l \<and> (\<forall>row \<in> set a. length row = m \<and> (\<forall>cell \<in> set row. length cell = n)))"

text \<open>\<^verbatim>\<open>a.sum(axis=2)\<close>, \<^verbatim>\<open>a.sum(axis=1)\<close> and \<^verbatim>\<open>a.sum(axis=0)\<close> of an array of shape (9, 9, 9).\<close>

definition sum_axis2 :: "cube \<Rightarrow> grid" where
  "sum_axis2 a = map (map sum_list) a"

definition sum_axis1 :: "cube \<Rightarrow> grid" where
  "sum_axis1 a = map (\<lambda>row. map (\<lambda>k. sum_list (map (\<lambda>cell. cell ! k) row)) [0..<9]) a"

definition sum_axis0 :: "cube \<Rightarrow> grid" where
  "sum_axis0 a = map (\<lambda>j. map (\<lambda>k. sum_list (map (\<lambda>row. row ! j ! k) a)) [0..<9]) [0..<9]"

text \<open>\<^verbatim>\<open>a[i:i+3, j:j+3].sum(axis=(0, 1))\<close>: one sum for each digit.\<close>

definition box_sum :: "cube \<Rightarrow> nat \<Rightarrow> nat \<Rightarrow> int list" where
  "box_sum a i j =
     map (\<lambda>k. sum_list (map (\<lambda>r. sum_list (map (\<lambda>c. a ! r ! c ! k) [j..<j + 3])) [i..<i + 3]))
       [0..<9]"

text \<open>\<^verbatim>\<open>np.all(g == 1)\<close>.\<close>

definition all_eq1 :: "grid \<Rightarrow> bool" where
  "all_eq1 g = list_all (list_all (\<lambda>x. x = 1)) g"

text \<open>\<^verbatim>\<open>range(start, stop, step)\<close> for a positive step.\<close>

definition range_step :: "nat \<Rightarrow> nat \<Rightarrow> nat \<Rightarrow> nat list" where
  "range_step start stop step =
     map (\<lambda>n. start + n * step) [0..<(stop - start + step - 1) div step]"

section \<open>\<^verbatim>\<open>validate_solution\<close>\<close>

text \<open>
  The two nested loops over \<^verbatim>\<open>range(0, 6, 3)\<close> return \<^verbatim>\<open>False\<close> at the first box whose sums
  are not all 1; \<open>list_ex\<close> over the same ranges is that early return.
\<close>

definition validate_solution :: "cube \<Rightarrow> error + bool" where
  "validate_solution candidate_solution =
     (if \<not> shape_is 9 9 9 candidate_solution then Inl ValueError
      else if \<not> all_eq1 (sum_axis2 candidate_solution) then Inl ValueError
      else if \<not> all_eq1 (sum_axis1 candidate_solution) then Inr False
      else if \<not> all_eq1 (sum_axis0 candidate_solution) then Inr False
      else if list_ex (\<lambda>i. list_ex (\<lambda>j. \<not> list_all (\<lambda>x. x = 1) (box_sum candidate_solution i j))
                 (range_step 0 6 3)) (range_step 0 6 3)
      then Inr False
      else Inr True)"

section \<open>Conversions between strings and arrays\<close>

text \<open>
  A Python \<^verbatim>\<open>str\<close> is the sequence of its code points (\<^verbatim>\<open>ord\<close> of each character), so
  that every string of Python can be written, not only those of bytes; \<open>str_of\<close> gives
  the code points of a literal.
\<close>

type_synonym str = "int list"

definition str_of :: "string \<Rightarrow> str" where
  "str_of cs = map of_char cs"

text \<open>
  \<^verbatim>\<open>np.array(list(sudoku), dtype=np.byte)\<close> converts each one-character string as
  \<^verbatim>\<open>int\<close> does and raises \<^verbatim>\<open>ValueError\<close> at the first character that \<^verbatim>\<open>int\<close> refuses.
  Of a single character \<^verbatim>\<open>int\<close> accepts the decimal digits of the Unicode database (the
  characters with \<^verbatim>\<open>Py_UNICODE_TODECIMAL(c) >= 0\<close>): the ASCII digits \<^verbatim>\<open>0\<close> to \<^verbatim>\<open>9\<close> and
  the digits of the other scripts, which it reads with their value. The decimal digits
  come in runs of ten, from the zero of a script to its nine; \<open>decimal_zeros\<close> lists the
  66 zeros of Unicode 14.0, the database of Python 3.11 (the first version whose grammar
  has the starred subscripts of \<^verbatim>\<open>solve\<close>). \<open>to_decimal\<close> is \<^verbatim>\<open>Py_UNICODE_TODECIMAL\<close>,
  with its -1 for any other character.
\<close>

definition decimal_zeros :: "int list" where
  "decimal_zeros =
     [48, 1632, 1776, 1984, 2406, 2534, 2662, 2790, 2918, 3046,
      3174, 3302, 3430, 3558, 3664, 3792, 3872, 4160, 4240, 6112,
      6160, 6470, 6608, 6784, 6800, 6992, 7088, 7232, 7248, 42528,
      43216, 43264, 43472, 43504, 43600, 44016, 65296, 66720, 68912, 69734,
      69872, 69942, 70096, 70384, 70736, 70864, 71248, 71360, 71472, 71904,
      72016, 72784, 73040, 73120, 92768, 92864, 93008, 120782, 120792, 120802,
      120812, 120822, 123200, 123632, 125264, 130032]"

definition to_decimal :: "int \<Rightarrow> int" where
  "to_decimal c =
     (case find (\<lambda>z. z \<le> c \<and> c < z + 10) decimal_zeros of None \<Rightarrow> - 1 | Some z \<Rightarrow> c - z)"

definition int_of_char :: "int \<Rightarrow> error + int" where
  "int_of_char c = (let d = to_decimal c in if d < 0 then Inl ValueError else Inr d)"

text \<open>Evaluating a list of computations in order; the first exception ends it.\<close>

fun collect :: "('e + 'a) list \<Rightarrow> 'e + 'a list" where
  "collect [] = Inr []"
| "collect (x # xs) =
     (case x of
        Inl e \<Rightarrow> Inl e
      | Inr y \<Rightarrow> (case collect xs of Inl e \<Rightarrow> Inl e | Inr ys \<Rightarrow> Inr (y # ys)))"

definition np_array_byte :: "str \<Rightarrow> error + int list" where
  "np_array_byte sudoku = collect (map int_of_char sudoku)"

text \<open>\<^verbatim>\<open>np.reshape(xs, newshape=(9, 9))\<close> raises \<^verbatim>\<open>ValueError\<close> unless there are 81 elements.\<close>

definition np_reshape_9x9 :: "int list \<Rightarrow> error + grid" where
  "np_reshape_9x9 xs =
     (if length xs \<noteq> 81 then Inl ValueError
      else Inr (map (\<lambda>i. take 9 (drop (9 * i) xs)) [0..<9]))"

text \<open>
  \<^verbatim>\<open>options_3d[nonzero_indices[0], nonzero_indices[1], values] = 1\<close> sets, in each cell
  whose digit \<open>v\<close> is not zero, the entry \<open>v - 1\<close>;
  \<^verbatim>\<open>options_3d[zero_indices[0], zero_indices[1]] = 1\<close> sets the whole depth of each cell
  whose digit is zero.
\<close>

definition zeros_9x9x9 :: cube where
  "zeros_9x9x9 = replicate 9 (replicate 9 (replicate 9 0))"

definition set_nonzero :: "grid \<Rightarrow> cube \<Rightarrow> cube" where
  "set_nonzero puzzle_2d options_3d =
     map2 (map2 (\<lambda>v cell. if v \<noteq> 0 then cell[nat (v - 1) := 1] else cell)) puzzle_2d options_3d"

definition set_zero :: "grid \<Rightarrow> cube \<Rightarrow> cube" where
  "set_zero puzzle_2d options_3d =
     map2 (map2 (\<lambda>v cell. if v = 0 then map (\<lambda>_. 1) cell else cell)) puzzle_2d options_3d"

definition string_to_np_puzzle :: "str \<Rightarrow> error + grid \<times> cube" where
  "string_to_np_puzzle sudoku =
     (case np_array_byte sudoku of
        Inl e \<Rightarrow> Inl e
      | Inr xs \<Rightarrow>
          (case np_reshape_9x9 xs of
             Inl e \<Rightarrow> Inl e
           | Inr puzzle_2d \<Rightarrow>
               Inr (puzzle_2d, set_zero puzzle_2d (set_nonzero puzzle_2d zeros_9x9x9))))"

text \<open>\<^verbatim>\<open>np.argmax\<close> of a one-dimensional array: the first index of a largest entry.\<close>

fun argmax_from :: "int \<Rightarrow> nat \<Rightarrow> nat \<Rightarrow> int list \<Rightarrow> nat" where
  "argmax_from best bi n [] = bi"
| "argmax_from best bi n (x # xs) =
     (if best < x then argmax_from x n (Suc n) xs else argmax_from best bi (Suc n) xs)"

definition argmax :: "int list \<Rightarrow> nat" where
  "argmax xs = (case xs of [] \<Rightarrow> 0 | x # rest \<Rightarrow> argmax_from x 0 1 rest)"

text \<open>\<^verbatim>\<open>str\<close> of a natural number: its decimal digits in ASCII.\<close>

fun str_nat :: "nat \<Rightarrow> str" where
  "str_nat n =
     (if n < 10 then [48 + int n] else str_nat (n div 10) @ [48 + int (n mod 10)])"

declare str_nat.simps [simp del]

definition np_puzzle_to_string :: "cube \<Rightarrow> str" where
  "np_puzzle_to_string np_puzzle = concat (map (\<lambda>cell. str_nat (argmax cell + 1)) (concat np_puzzle))"

text \<open>\<^verbatim>\<open>validate_solution_list_or_string\<close>, for a string.\<close>

definition validate_solution_list_or_string :: "str \<Rightarrow> error + bool" where
  "validate_solution_list_or_string candidate_solution =
     (case string_to_np_puzzle candidate_solution of
        Inl e \<Rightarrow> Inl e
      | Inr (_, candidate_3d) \<Rightarrow> validate_solution candidate_3d)"

section \<open>Propagation\<close>

text \<open>
  \<^verbatim>\<open>a[rows, cols, depths] = v\<close> for basic indices (an integer or a slice on each axis): every
  entry whose three indices are selected is overwritten.
\<close>

fun map_idx :: "(nat \<Rightarrow> 'a \<Rightarrow> 'b) \<Rightarrow> nat \<Rightarrow> 'a list \<Rightarrow> 'b list" where
  "map_idx f n [] = []"
| "map_idx f n (x # xs) = f n x # map_idx f (Suc n) xs"

definition assign_slice ::
  "(nat \<Rightarrow> bool) \<Rightarrow> (nat \<Rightarrow> bool) \<Rightarrow> (nat \<Rightarrow> bool) \<Rightarrow> int \<Rightarrow> cube \<Rightarrow> cube" where
  "assign_slice rows cols depths v a =
     map_idx (\<lambda>i row. if rows i
        then map_idx (\<lambda>j cell. if cols j
               then map_idx (\<lambda>k x. if depths k then v else x) 0 cell
               else cell) 0 row
        else row) 0 a"

text \<open>
  \<^verbatim>\<open>[(it.multi_index, v) for v in it if v != 0]\<close>: the cells with a digit, in row-major
  order.
\<close>

definition known_cells :: "grid \<Rightarrow> ((nat \<times> nat) \<times> int) list" where
  "known_cells puzzle_2d =
     concat (map_idx (\<lambda>i row.
       concat (map_idx (\<lambda>j v. if v \<noteq> 0 then [((i, j), v)] else []) 0 row)) 0 puzzle_2d)"

text \<open>
  The body of \<^verbatim>\<open>for cell in known_cells\<close>: in the layer of the cell's digit, clear the
  cell's row, column and box, then set the cell itself back to one.
\<close>

definition eliminate :: "(nat \<times> nat) \<times> int \<Rightarrow> cube \<Rightarrow> cube" where
  "eliminate cell options_3d =
     (let r = fst (fst cell); c = snd (fst cell); k = nat (snd cell - 1);
          box = (r div 3, c div 3);
          o1 = assign_slice (\<lambda>i. i = r) (\<lambda>j. True) (\<lambda>d. d = k) 0 options_3d;
          o2 = assign_slice (\<lambda>i. True) (\<lambda>j. j = c) (\<lambda>d. d = k) 0 o1;
          o3 = assign_slice (\<lambda>i. fst box * 3 \<le> i \<and> i < fst box * 3 + 3)
                 (\<lambda>j. snd box * 3 \<le> j \<and> j < snd box * 3 + 3) (\<lambda>d. d = k) 0 o2
      in assign_slice (\<lambda>i. i = r) (\<lambda>j. j = c) (\<lambda>d. d = k) 1 o3)"

text \<open>
  \<^verbatim>\<open>puzzle_2d = options_3d.argmax(axis=2) + 1\<close> followed by
  \<^verbatim>\<open>puzzle_2d[options_3d.sum(axis=2) != 1] = 0\<close>.
\<close>

definition puzzle_of_options :: "cube \<Rightarrow> grid" where
  "puzzle_of_options options_3d =
     map (map (\<lambda>cell. if sum_list cell \<noteq> 1 then 0 else int (argmax cell) + 1)) options_3d"

text \<open>One pass of the \<^verbatim>\<open>while True\<close> loop up to the new \<^verbatim>\<open>puzzle_2d\<close>.\<close>

definition propagation_pass :: "grid \<Rightarrow> cube \<Rightarrow> cube" where
  "propagation_pass puzzle_2d options_3d = fold eliminate (known_cells puzzle_2d) options_3d"

datatype loop_exit = Break grid cube | Return str

text \<open>
  The \<^verbatim>\<open>while True\<close> loop. It has no bound of its own, so that the model is a partial
  function: \<open>None\<close> stands for a loop that never ends.
\<close>

partial_function (option) propagate :: "grid \<Rightarrow> cube \<Rightarrow> loop_exit option" where
  "propagate puzzle_2d options_3d =
     (let prev_puzzle_2d = puzzle_2d;
          options_3d = propagation_pass puzzle_2d options_3d;
          puzzle_2d = puzzle_of_options options_3d
      in if puzzle_2d = prev_puzzle_2d then Some (Break puzzle_2d options_3d)
         else if sum_list (map sum_list puzzle_2d) = 9 * 45
         then Some (Return (np_puzzle_to_string options_3d))
         else propagate puzzle_2d options_3d)"

declare propagate.simps [code]

text \<open>
  \<^verbatim>\<open>options_3d.sum(axis=2).prod()\<close>: the sums are 64-bit integers and numpy multiplies them
  without an overflow check, so that the product is the two's-complement reading of a
  64-bit word.
\<close>

definition num_possibilities :: "cube \<Rightarrow> int" where
  "num_possibilities options_3d =
     sint (prod_list (map (\<lambda>x. word_of_int x :: 64 word) (concat (sum_axis2 options_3d))))"

section \<open>Search\<close>

type_synonym idx = "nat \<times> nat \<times> nat"

text \<open>
  \<^verbatim>\<open>[[(*it.multi_index, int(d)) for d in np.nditer(np.where(options_3d[i, j, :] == 1)[0])]
  for v in it if v == 0]\<close>: for each cell without a digit, in row-major order, the
  candidates that are left. \<^verbatim>\<open>np.nditer\<close> refuses an array of size zero with a
  \<^verbatim>\<open>ValueError\<close> (iteration of zero-sized operands is not enabled).
\<close>

definition unknown_cells :: "grid \<Rightarrow> (nat \<times> nat) list" where
  "unknown_cells puzzle_2d =
     concat (map_idx (\<lambda>i row.
       concat (map_idx (\<lambda>j v. if v = 0 then [(i, j)] else []) 0 row)) 0 puzzle_2d)"

definition np_where_eq1 :: "int list \<Rightarrow> nat list" where
  "np_where_eq1 cell = filter (\<lambda>d. cell ! d = 1) [0..<length cell]"

definition np_nditer :: "nat list \<Rightarrow> error + nat list" where
  "np_nditer xs = (if xs = [] then Inl ValueError else Inr xs)"

definition options_idx :: "grid \<Rightarrow> cube \<Rightarrow> error + idx list list" where
  "options_idx puzzle_2d options_3d =
     collect (map (\<lambda>(i, j).
        case np_nditer (np_where_eq1 (options_3d ! i ! j)) of
          Inl e \<Rightarrow> Inl e
        | Inr ds \<Rightarrow> Inr (map (\<lambda>d. (i, j, d)) ds)) (unknown_cells puzzle_2d))"

text \<open>\<^verbatim>\<open>itertools.product(*iterables)\<close>: the last position changes fastest.\<close>

fun itertools_product :: "'a list list \<Rightarrow> 'a list list" where
  "itertools_product [] = [[]]"
| "itertools_product (xs # xss) =
     concat (map (\<lambda>x. map (\<lambda>comb. x # comb) (itertools_product xss)) xs)"

text \<open>
  \<^verbatim>\<open>_unique_combinations\<close>. The generator is the list of what it yields. A pair is
  \<^verbatim>\<open>(p, c)\<close> with \<^verbatim>\<open>p\<close> the previous element, \<^verbatim>\<open>None\<close> in the first yield. When the
  product is empty, \<^verbatim>\<open>next(combinations)\<close> raises \<^verbatim>\<open>StopIteration\<close> inside the generator,
  which Python turns into a \<^verbatim>\<open>RuntimeError\<close>.
\<close>

fun later_yields :: "'a list \<Rightarrow> 'a list list \<Rightarrow> ('a option \<times> 'a) list list" where
  "later_yields prev_comb [] = []"
| "later_yields prev_comb (comb # rest) =
     map (\<lambda>(c, p). (Some p, c)) (filter (\<lambda>(c, p). c \<noteq> p) (zip comb prev_comb))
       # later_yields comb rest"

definition unique_combinations :: "'a list list \<Rightarrow> error + ('a option \<times> 'a) list list" where
  "unique_combinations iterables =
     (case itertools_product iterables of
        [] \<Rightarrow> Inl RuntimeError
      | comb # rest \<Rightarrow> Inr (map (\<lambda>c. (None, c)) comb # later_yields comb rest))"

text \<open>
  The assignments of the search. \<^verbatim>\<open>options_3d[*idx[1][:2], :] = 0\<close> followed by
  \<^verbatim>\<open>options_3d[*idx[1]] = 1\<close> sets up a cell of the first combination;
  \<^verbatim>\<open>options_3d[*idx[0]] = 0\<close> followed by \<^verbatim>\<open>options_3d[*idx[1]] = 1\<close> applies one change,
  and unpacking \<^verbatim>\<open>None\<close> there would be a \<^verbatim>\<open>TypeError\<close>. Every index the solver builds is
  inside the array.
\<close>

definition set_entry :: "idx \<Rightarrow> int \<Rightarrow> cube \<Rightarrow> cube" where
  "set_entry idx v a =
     (case idx of (i, j, d) \<Rightarrow> assign_slice (\<lambda>r. r = i) (\<lambda>c. c = j) (\<lambda>k. k = d) v a)"

definition set_up_first :: "idx option \<times> idx \<Rightarrow> cube \<Rightarrow> cube" where
  "set_up_first idx a =
     (case snd idx of (i, j, d) \<Rightarrow>
        set_entry (i, j, d) 1 (assign_slice (\<lambda>r. r = i) (\<lambda>c. c = j) (\<lambda>k. True) 0 a))"

definition apply_change :: "idx option \<times> idx \<Rightarrow> cube \<Rightarrow> error + cube" where
  "apply_change idx a =
     (case fst idx of
        None \<Rightarrow> Inl TypeError
      | Some prev \<Rightarrow> Inr (set_entry (snd idx) 1 (set_entry prev 0 a)))"

fun apply_changes :: "(idx option \<times> idx) list \<Rightarrow> cube \<Rightarrow> error + cube" where
  "apply_changes [] a = Inr a"
| "apply_changes (idx # rest) a =
     (case apply_change idx a of Inl e \<Rightarrow> Inl e | Inr a' \<Rightarrow> apply_changes rest a')"

text \<open>
  \<^verbatim>\<open>for changes in generator\<close>: the result is \<^verbatim>\<open>None\<close> when the generator ends, since the
  function then ends without a \<^verbatim>\<open>return\<close>.
\<close>

fun iterate_options :: "(idx option \<times> idx) list list \<Rightarrow> cube \<Rightarrow> error + str option" where
  "iterate_options [] options_3d = Inr None"
| "iterate_options (changes # rest) options_3d =
     (case apply_changes changes options_3d of
        Inl e \<Rightarrow> Inl e
      | Inr options_3d' \<Rightarrow>
          (case validate_solution options_3d' of
             Inl e \<Rightarrow> Inl e
           | Inr valid \<Rightarrow>
               if valid then Inr (Some (np_puzzle_to_string options_3d'))
               else iterate_options rest options_3d'))"

section \<open>\<^verbatim>\<open>solve\<close>\<close>

text \<open>
  The part of \<^verbatim>\<open>solve\<close> after the loop, in two steps: \<open>search\<close> is the enumeration
  that starts with \<^verbatim>\<open>options_idx\<close>, and \<open>solve_search\<close> puts the two returns on
  \<^verbatim>\<open>num_possibilities\<close> before it. The result is \<open>Inr (Some s)\<close> for a returned string,
  \<open>Inr None\<close> for \<^verbatim>\<open>None\<close> and \<open>Inl e\<close> for an exception.
\<close>

definition search :: "grid \<Rightarrow> cube \<Rightarrow> error + str option" where
  "search puzzle_2d options_3d =
     (case options_idx puzzle_2d options_3d of
        Inl e \<Rightarrow> Inl e
      | Inr idxs \<Rightarrow>
          (case unique_combinations idxs of
             Inl e \<Rightarrow> Inl e
           | Inr [] \<Rightarrow> Inl StopIteration
           | Inr (first # rest) \<Rightarrow>
               (let options_3d = fold set_up_first first options_3d
                in case validate_solution options_3d of
                     Inl e \<Rightarrow> Inl e
                   | Inr valid \<Rightarrow>
                       if valid then Inr (Some (np_puzzle_to_string options_3d))
                       else iterate_options rest options_3d)))"

definition solve_search :: "grid \<Rightarrow> cube \<Rightarrow> int \<Rightarrow> error + str option" where
  "solve_search puzzle_2d options_3d max_iterations =
     (let num_possibilities = num_possibilities options_3d
      in if num_possibilities = 1 then Inr (Some (np_puzzle_to_string options_3d))
         else if num_possibilities \<ge> max_iterations \<or> num_possibilities < 0 then Inr None
         else search puzzle_2d options_3d)"

text \<open>\<open>solve\<close> is \<open>None\<close> when the loop of the propagation never ends.\<close>

definition solve :: "str \<Rightarrow> int \<Rightarrow> (error + str option) option" where
  "solve unsolved_sudoku max_iterations =
     (case string_to_np_puzzle unsolved_sudoku of
        Inl e \<Rightarrow> Some (Inl e)
      | Inr (puzzle_2d, options_3d) \<Rightarrow>
          (case propagate puzzle_2d options_3d of
             None \<Rightarrow> None
           | Some (Return s) \<Rightarrow> Some (Inr (Some s))
           | Some (Break puzzle_2d options_3d) \<Rightarrow>
               Some (solve_search puzzle_2d options_3d max_iterations)))"

section \<open>Predicates of the specification\<close>

text \<open>
  An indicator array has only the entries 0 and 1; it is one-hot when it has the shape
  (9, 9, 9) and every cell sums to 1 along the digit axis. \<open>digits_set\<close> counts the digits
  set in a cell.
\<close>

definition indicator_cube :: "cube \<Rightarrow> bool" where
  "indicator_cube a = list_all (list_all (list_all (\<lambda>x. x = 0 \<or> x = 1))) a"

definition one_hot_cube :: "cube \<Rightarrow> bool" where
  "one_hot_cube a = (shape_is 9 9 9 a \<and> indicator_cube a \<and> all_eq1 (sum_axis2 a))"

definition digits_set :: "int list \<Rightarrow> nat" where
  "digits_set cell = length (filter (\<lambda>x. x \<noteq> 0) cell)"

text \<open>
  How often digit \<open>k + 1\<close> occurs in row \<open>i\<close>, in column \<open>j\<close> and in the box
  \<open>(bi, bj)\<close> of the nine non-overlapping boxes; a completed grid is legal when each of
  these counts is 1.
\<close>

definition row_count :: "cube \<Rightarrow> nat \<Rightarrow> nat \<Rightarrow> int" where
  "row_count a i k = sum_list (map (\<lambda>j. a ! i ! j ! k) [0..<9])"

definition col_count :: "cube \<Rightarrow> nat \<Rightarrow> nat \<Rightarrow> int" where
  "col_count a j k = sum_list (map (\<lambda>i. a ! i ! j ! k) [0..<9])"

definition box_count :: "cube \<Rightarrow> nat \<Rightarrow> nat \<Rightarrow> nat \<Rightarrow> int" where
  "box_count a bi bj k =
     sum_list (map (\<lambda>r. sum_list (map (\<lambda>c. a ! (3 * bi + r) ! (3 * bj + c) ! k) [0..<3])) [0..<3])"

definition legal :: "cube \<Rightarrow> bool" where
  "legal a =
     (list_all (\<lambda>i. list_all (\<lambda>k. row_count a i k = 1) [0..<9]) [0..<9] \<and>
      list_all (\<lambda>j. list_all (\<lambda>k. col_count a j k = 1) [0..<9]) [0..<9] \<and>
      list_all (\<lambda>bi. list_all (\<lambda>bj. list_all (\<lambda>k. box_count a bi bj k = 1) [0..<9]) [0..<3])
        [0..<3])"

text \<open>
  The decimal digits, those that lie in one of the runs of ten of the database, and their
  values; the ASCII digits among them; the grid and the candidates of a cell that a string
  of 81 digits denotes.
\<close>

definition is_digit :: "int \<Rightarrow> bool" where
  "is_digit c = list_ex (\<lambda>z. z \<le> c \<and> c < z + 10) decimal_zeros"

definition digit_value :: "int \<Rightarrow> int" where
  "digit_value c = to_decimal c"

definition is_ascii_digit :: "int \<Rightarrow> bool" where
  "is_ascii_digit c = (c \<in> set (str_of ''0123456789''))"

definition cell_of_digit :: "int \<Rightarrow> int list" where
  "cell_of_digit v = (if v = 0 then replicate 9 1 else (replicate 9 0)[nat (v - 1) := 1])"

definition grid_of :: "str \<Rightarrow> grid" where
  "grid_of s = map (\<lambda>i. take 9 (drop (9 * i) (map digit_value s))) [0..<9]"

text \<open>
  The pairs that the specification asks of a later yield: at each position where the new
  combination differs from the previous one, the previous element and the new one.
\<close>

definition differences :: "'a list \<Rightarrow> 'a list \<Rightarrow> ('a option \<times> 'a) list" where
  "differences prev_comb comb =
     map (\<lambda>n. (Some (prev_comb ! n), comb ! n))
       (filter (\<lambda>n. comb ! n \<noteq> prev_comb ! n) [0..<length comb])"

text \<open>
  Applying a yield to an assignment: every retracted element is replaced by the element
  set in its place. Replaying a generator starts from the first yield.
\<close>

definition apply_delta :: "('a option \<times> 'a) list \<Rightarrow> 'a list \<Rightarrow> 'a list" where
  "apply_delta delta comb =
     map (\<lambda>x. case find (\<lambda>pc. fst pc = Some x) delta of None \<Rightarrow> x | Some pc \<Rightarrow> snd pc) comb"

fun replay_from :: "'a list \<Rightarrow> ('a option \<times> 'a) list list \<Rightarrow> 'a list list" where
  "replay_from comb [] = [comb]"
| "replay_from comb (delta # rest) = comb # replay_from (apply_delta delta comb) rest"

definition replay :: "('a option \<times> 'a) list list \<Rightarrow> 'a list list" where
  "replay yields = (case yields of [] \<Rightarrow> [] | first # rest \<Rightarrow> replay_from (map snd first) rest)"

text \<open>
  The lists are per cell when no element belongs to two of them, as for the indices
  \<open>(i, j, d)\<close> that \<open>solve\<close> passes, which carry their cell.
\<close>

fun per_cell :: "'a list list \<Rightarrow> bool" where
  "per_cell [] = True"
| "per_cell (xs # xss) = ((\<forall>ys \<in> set xss. set xs \<inter> set ys = {}) \<and> per_cell xss)"

text \<open>
  The invariant of the loop of \<open>solve\<close>: the candidates are an indicator array of shape
  (9, 9, 9), and the grid of digits is the one computed from them.
\<close>

definition propagation_inv :: "grid \<Rightarrow> cube \<Rightarrow> bool" where
  "propagation_inv puzzle_2d options_3d =
     (shape_is 9 9 9 options_3d \<and> indicator_cube options_3d \<and>
      puzzle_2d = puzzle_of_options options_3d)"

text \<open>
  The number of candidates that are left in the whole grid, \<^verbatim>\<open>options_3d.sum()\<close>; the loop
  ends because a pass that changes the digits lowers it.
\<close>

definition total_options :: "cube \<Rightarrow> int" where
  "total_options a = (\<Sum>x \<in> {..<9} \<times> {..<9} \<times> {..<9}. a ! fst x ! fst (snd x) ! snd (snd x))"

text \<open>Entry by entry, the first array is at most the second.\<close>

definition cube_le :: "cube \<Rightarrow> cube \<Rightarrow> bool" where
  "cube_le a b =
     list_all (\<lambda>i. list_all (\<lambda>j. list_all (\<lambda>k. a ! i ! j ! k \<le> b ! i ! j ! k) [0..<9]) [0..<9])
       [0..<9]"

text \<open>\<^verbatim>\<open>options_3d.sum(axis=2).prod()\<close> without the 64-bit wrap-around.\<close>

definition exact_possibilities :: "cube \<Rightarrow> int" where
  "exact_possibilities options_3d = prod_list (concat (sum_axis2 options_3d))"

text \<open>
  The cell of an index \<open>(row, column, digit)\<close>; the candidates with the cells of a
  combination narrowed to its digits, which is what the set-up of the first yield
  computes; and the yields of the generator applied one after the other, as the loop of
  the search does between its validations.
\<close>

definition cell_of :: "idx \<Rightarrow> nat \<times> nat" where
  "cell_of x = (fst x, fst (snd x))"

definition assignment :: "idx list \<Rightarrow> cube \<Rightarrow> cube" where
  "assignment comb a = fold set_up_first (map (\<lambda>c. (None, c)) comb) a"

fun apply_yields :: "(idx option \<times> idx) list list \<Rightarrow> cube \<Rightarrow> error + cube" where
  "apply_yields [] a = Inr a"
| "apply_yields (changes # rest) a =
     (case apply_changes changes a of Inl e \<Rightarrow> Inl e | Inr a' \<Rightarrow> apply_yields rest a')"

section \<open>Example inputs\<close>

text \<open>
  A solved grid; the same grid with the 3 of its first row replaced by a second 5, so
  that the first row, the second column and the first box hold a digit twice; the solved
  grid with its first cell left blank; and the grid without any digit.
\<close>

definition solved_grid :: str where
  "solved_grid = str_of
     ''534678912672195348198342567859761423426853791713924856961537284287419635345286179''"

definition duplicate_grid :: str where
  "duplicate_grid = str_of
     ''554678912672195348198342567859761423426853791713924856961537284287419635345286179''"

definition one_blank_grid :: str where
  "one_blank_grid = str_of
     ''034678912672195348198342567859761423426853791713924856961537284287419635345286179''"


text \<open>
  Two clues (a 5 in the first cell, a 6 in the centre) leave 36 cells with eight
  candidates, two with seven and 41 with nine.
\<close>

definition two_clue_grid :: str where
  "two_clue_grid = str_of
     ''500000000000000000000000000000000000000060000000000000000000000000000000000000000''"

text \<open>
  Two grids without a solution: two 5s at the start of the first row; and the same with
  all digits but 5 in the second row, so that its last cell becomes a 5 after one pass.
\<close>

definition two_fives_grid :: str where
  "two_fives_grid = str_of (''55'' @ replicate 79 (CHR ''0''))"

definition contradictory_grid :: str where
  "contradictory_grid = str_of
     ''550000000123467890000000000000000000000000000000000000000000000000000000000000000''"

text \<open>
  What \<open>solve\<close> computes for a string on its way: the candidates after parsing (the empty
  array for a string that does not parse), the candidates after a number of passes of the
  loop, its exits left aside, and the exit of the loop.
\<close>

definition options_of :: "str \<Rightarrow> cube" where
  "options_of s = (case string_to_np_puzzle s of Inl e \<Rightarrow> [] | Inr (p, a) \<Rightarrow> a)"



definition loop_exit_of :: "str \<Rightarrow> loop_exit option" where
  "loop_exit_of s = (case string_to_np_puzzle s of Inl e \<Rightarrow> None | Inr (p, a) \<Rightarrow> propagate p a)"

text \<open>
  What \<open>solve\<close> holds when the loop ends by its \<^verbatim>\<open>break\<close>: the count it computes, the
  exact count, and the result of the search from there.
\<close>

definition count_after_propagation :: "str \<Rightarrow> int option" where
  "count_after_propagation s =
     (case loop_exit_of s of Some (Break p' a') \<Rightarrow> Some (num_possibilities a') | _ \<Rightarrow> None)"

definition exact_count_after_propagation :: "str \<Rightarrow> int option" where
  "exact_count_after_propagation s =
     (case loop_exit_of s of Some (Break p' a') \<Rightarrow> Some (exact_possibilities a') | _ \<Rightarrow> None)"

definition search_after_propagation :: "str \<Rightarrow> (error + str option) option" where
  "search_after_propagation s =
     (case loop_exit_of s of Some (Break p' a') \<Rightarrow> Some (search p' a') | _ \<Rightarrow> None)"

section \<open>The checker\<close>

lemma upt9: "[0..<9] = [0,1,2,3,4,5,6,7,8::nat]"
  by code_simp

lemma range_step_036: "range_step 0 6 3 = [0, 3]"
  by code_simp

lemma upt_3: "[i..<i+3] = [i, i+1, i+2]"
  by (simp add: numeral_3_eq_3 upt_conv_Cons)

lemma sum9: "sum_list (map g [0..<9]) = g 0 + g 1 + g 2 + g 3 + g 4 + g 5 + g 6 + g 7 + (g 8 :: int)"
  by (simp add: upt9)

lemma map_nth9: "length xs = 9 \<Longrightarrow> map f xs = map (\<lambda>j. f (xs ! j)) [0..<9]"
  by (rule nth_equalityI) simp_all

lemma row_sums:
  assumes "shape_is 9 9 9 a" "all_eq1 (sum_axis1 a)" "i < 9" "k < 9"
  shows "sum_list (map (\<lambda>j. a ! i ! j ! k) [0..<9]) = 1"
proof -
  have la: "length a = 9" and lr: "length (a ! i) = 9"
    using assms(1,3) by (auto simp: shape_is_def)
  have "list_all (\<lambda>x. x = 1) (sum_axis1 a ! i)"
    using assms(2,3) la by (simp add: all_eq1_def list_all_length sum_axis1_def)
  then have "sum_axis1 a ! i ! k = 1"
    using assms(3,4) la by (simp add: list_all_length sum_axis1_def)
  then have "sum_list (map (\<lambda>cell. cell ! k) (a ! i)) = 1"
    using assms(3,4) la by (simp add: sum_axis1_def)
  then show ?thesis using map_nth9 [OF lr, of "\<lambda>cell. cell ! k"] by simp
qed

lemma col_sums:
  assumes "shape_is 9 9 9 a" "all_eq1 (sum_axis0 a)" "j < 9" "k < 9"
  shows "sum_list (map (\<lambda>i. a ! i ! j ! k) [0..<9]) = 1"
proof -
  have la: "length a = 9"
    using assms(1) by (auto simp: shape_is_def)
  have "list_all (\<lambda>x. x = 1) (sum_axis0 a ! j)"
    using assms(2,3) by (simp add: all_eq1_def list_all_length sum_axis0_def)
  then have "sum_axis0 a ! j ! k = 1"
    using assms(3,4) by (simp add: list_all_length sum_axis0_def)
  then have "sum_list (map (\<lambda>row. row ! j ! k) a) = 1"
    using assms(3,4) by (simp add: sum_axis0_def)
  then show ?thesis using map_nth9 [OF la, of "\<lambda>row. row ! j ! k"] by simp
qed

lemma box_sum_nth:
  "k < 9 \<Longrightarrow> box_sum a i j ! k =
     a ! i ! j ! k + a ! i ! (j+1) ! k + a ! i ! (j+2) ! k
   + a ! (i+1) ! j ! k + a ! (i+1) ! (j+1) ! k + a ! (i+1) ! (j+2) ! k
   + a ! (i+2) ! j ! k + a ! (i+2) ! (j+1) ! k + a ! (i+2) ! (j+2) ! k"
  by (simp add: box_sum_def upt_3)

lemma validate_True_facts:
  assumes "validate_solution a = Inr True"
  shows "shape_is 9 9 9 a" "all_eq1 (sum_axis2 a)" "all_eq1 (sum_axis1 a)" "all_eq1 (sum_axis0 a)"
    "list_all (\<lambda>x. x = 1) (box_sum a 0 0)" "list_all (\<lambda>x. x = 1) (box_sum a 0 3)"
    "list_all (\<lambda>x. x = 1) (box_sum a 3 0)" "list_all (\<lambda>x. x = 1) (box_sum a 3 3)"
  using assms by (auto simp: validate_solution_def range_step_036 split: if_splits)

lemma length_box_sum: "length (box_sum a i j) = 9"
  by (simp add: box_sum_def)

lemma validate_True_boxes:
  assumes v: "validate_solution a = Inr True" and b: "bi < 3" "bj < 3" and k: "k < 9"
  shows "box_sum a (3 * bi) (3 * bj) ! k = 1"
proof -
  define f where "f r c = a ! r ! c ! k" for r c
  note vf = validate_True_facts [OF v]
  have rows: "f i 0 + f i 1 + f i 2 + f i 3 + f i 4 + f i 5 + f i 6 + f i 7 + f i 8 = 1"
    if "i < 9" for i
    using row_sums [OF vf(1) vf(3) that k] by (simp add: sum9 f_def)
  have cols: "f 0 j + f 1 j + f 2 j + f 3 j + f 4 j + f 5 j + f 6 j + f 7 j + f 8 j = 1"
    if "j < 9" for j
    using col_sums [OF vf(1) vf(4) that k] by (simp add: sum9 f_def)
  have box: "box_sum a i j ! k = f i j + f i (j+1) + f i (j+2) + f (i+1) j + f (i+1) (j+1)
      + f (i+1) (j+2) + f (i+2) j + f (i+2) (j+1) + f (i+2) (j+2)" for i j
    using box_sum_nth [OF k, of a i j] by (simp add: f_def)
  have b00: "box_sum a 0 0 ! k = 1" and b03: "box_sum a 0 3 ! k = 1"
    and b30: "box_sum a 3 0 ! k = 1" and b33: "box_sum a 3 3 ! k = 1"
    using vf(5-8) k by (simp_all add: list_all_length length_box_sum)
  have b06: "box_sum a 0 6 ! k = 1"
    using rows [of 0] rows [of 1] rows [of 2] b00 b03 by (simp add: box numeral_2_eq_2)
  have b36: "box_sum a 3 6 ! k = 1"
    using rows [of 3] rows [of 4] rows [of 5] b30 b33 by (simp add: box numeral_2_eq_2)
  have b60: "box_sum a 6 0 ! k = 1"
    using cols [of 0] cols [of 1] cols [of 2] b00 b30 by (simp add: box numeral_2_eq_2)
  have b63: "box_sum a 6 3 ! k = 1"
    using cols [of 3] cols [of 4] cols [of 5] b03 b33 by (simp add: box numeral_2_eq_2)
  have b66: "box_sum a 6 6 ! k = 1"
    using rows [of 6] rows [of 7] rows [of 8] b60 b63 by (simp add: box numeral_2_eq_2)
  from b have "bi = 0 \<or> bi = 1 \<or> bi = 2" "bj = 0 \<or> bj = 1 \<or> bj = 2" by auto
  then show ?thesis
    using b00 b03 b06 b30 b33 b36 b60 b63 b66 by auto
qed

lemma shape_is_length: "shape_is l m n a \<Longrightarrow> length a = l"
  by (simp add: shape_is_def)

lemma shape_is_row: "shape_is l m n a \<Longrightarrow> r < l \<Longrightarrow> length (a ! r) = m"
  by (simp add: shape_is_def)

lemma shape_is_cell:
  assumes "shape_is l m n a" "r < l" "c < m"
  shows "length (a ! r ! c) = n"
proof -
  have "a ! r \<in> set a" using assms(1,2) by (simp add: shape_is_def)
  then have *: "length (a ! r) = m \<and> (\<forall>cell \<in> set (a ! r). length cell = n)"
    using assms(1) unfolding shape_is_def by blast
  then have "a ! r ! c \<in> set (a ! r)" using assms(3) by simp
  with * show ?thesis by blast
qed

lemma indicator_cube_nth:
  assumes "indicator_cube a" "r < length a" "c < length (a ! r)" "k < length (a ! r ! c)"
  shows "a ! r ! c ! k = 0 \<or> a ! r ! c ! k = 1"
  using assms by (simp add: indicator_cube_def list_all_length)

lemma box_sum_nth_sum:
  "k < 9 \<Longrightarrow> box_sum a i j ! k = (\<Sum>p \<in> {i..<i + 3} \<times> {j..<j + 3}. a ! fst p ! snd p ! k)"
  by (simp add: box_sum_def interv_sum_list_conv_sum_set_nat sum.cartesian_product split_def)

lemma box_two_cells:
  assumes a: "shape_is 9 9 9 a" "indicator_cube a"
    and r: "r1 < 9" "r2 < 9" and c: "c1 < 9" "c2 < 9" and k: "k < 9"
    and ne: "(r1, c1) \<noteq> (r2, c2)"
    and sb: "r1 div 3 = r2 div 3" "c1 div 3 = c2 div 3"
    and e: "a ! r1 ! c1 ! k = 1" "a ! r2 ! c2 ! k = 1"
  shows "2 \<le> box_sum a (3 * (r1 div 3)) (3 * (c1 div 3)) ! k"
proof -
  let ?S = "{3 * (r1 div 3)..<3 * (r1 div 3) + 3} \<times> {3 * (c1 div 3)..<3 * (c1 div 3) + 3}"
  let ?g = "\<lambda>p. a ! fst p ! snd p ! k"
  have in1: "(r1, c1) \<in> ?S" by auto
  have in2: "(r2, c2) \<in> ?S" using sb by auto
  note sh = shape_is_cell [OF a(1)]
  have nonneg: "0 \<le> ?g p" if "p \<in> ?S" for p
  proof -
    have "r1 div 3 \<le> 2" "c1 div 3 \<le> 2" using r c by auto
    then have "fst p < 9" "snd p < 9" using that by auto
    then show ?thesis
      using indicator_cube_nth [OF a(2), of "fst p" "snd p" k] sh [of "fst p" "snd p"] k
        shape_is_length [OF a(1)] shape_is_row [OF a(1), of "fst p"] by auto
  qed
  have "sum ?g {(r1, c1), (r2, c2)} \<le> sum ?g ?S"
    by (rule sum_mono2) (use in1 in2 nonneg in auto)
  moreover have "sum ?g {(r1, c1), (r2, c2)} = 2"
    using ne e by simp
  ultimately show ?thesis
    using box_sum_nth_sum [OF k, of a] by simp
qed

lemma validate_one_hot_bool:
  "one_hot_cube a \<Longrightarrow> validate_solution a = Inr True \<or> validate_solution a = Inr False"
  by (simp add: one_hot_cube_def validate_solution_def)

text \<open>
  Claim C1. Let \<open>a\<close> be a one-hot indicator array of shape (9, 9, 9). If two different
  cells \<open>(r1, c1)\<close> and \<open>(r2, c2)\<close> of the same box (any of the nine) both hold digit
  \<open>k + 1\<close>, then \<open>validate_solution\<close> returns \<^verbatim>\<open>False\<close>. The code looks at four boxes only;
  the sums of the rows and of the columns settle the other five.
\<close>

theorem box_duplicate_rejected:
  assumes "one_hot_cube a"
    and "r1 < 9" "c1 < 9" "r2 < 9" "c2 < 9" "k < 9"
    and "(r1, c1) \<noteq> (r2, c2)" "r1 div 3 = r2 div 3" "c1 div 3 = c2 div 3"
    and "a ! r1 ! c1 ! k = 1" "a ! r2 ! c2 ! k = 1"
  shows "validate_solution a = Inr False"
proof (rule ccontr)
  assume "validate_solution a \<noteq> Inr False"
  with validate_one_hot_bool [OF assms(1)] have v: "validate_solution a = Inr True" by simp
  have "r1 div 3 < 3" "c1 div 3 < 3" using assms(2,3) by auto
  from validate_True_boxes [OF v this assms(6)]
  have "box_sum a (3 * (r1 div 3)) (3 * (c1 div 3)) ! k = 1" .
  moreover have "2 \<le> box_sum a (3 * (r1 div 3)) (3 * (c1 div 3)) ! k"
    using assms by (intro box_two_cells [of a r1 r2 c1 c2 k]) (simp_all add: one_hot_cube_def)
  ultimately show False by simp
qed

theorem box_duplicate_rejected_witness:
  "one_hot_cube (options_of duplicate_grid) \<and>
   options_of duplicate_grid ! 0 ! 0 ! 4 = 1 \<and> options_of duplicate_grid ! 0 ! 1 ! 4 = 1 \<and>
   validate_solution (options_of duplicate_grid) = Inr False \<and>
   validate_solution_list_or_string duplicate_grid = Inr False"
proof -
  have h: "one_hot_cube (options_of duplicate_grid)"
    by code_simp
  have e: "options_of duplicate_grid ! 0 ! 0 ! 4 = 1" "options_of duplicate_grid ! 0 ! 1 ! 4 = 1"
    by code_simp+
  have v: "validate_solution (options_of duplicate_grid) = Inr False"
    using box_duplicate_rejected [OF h, of 0 0 0 1 4] e by simp
  have "validate_solution_list_or_string duplicate_grid =
      validate_solution (options_of duplicate_grid)"
    by code_simp
  with h e v show ?thesis by simp
qed

lemma upt_shift3: "[i..<i + 3] = map (\<lambda>r. i + r) [0..<3]"
  by (simp add: numeral_3_eq_3 upt_conv_Cons)

lemma box_count_box_sum: "k < 9 \<Longrightarrow> box_count a bi bj k = box_sum a (3 * bi) (3 * bj) ! k"
  by (simp add: box_count_def box_sum_def upt_shift3 o_def)

lemma sum_list_indicator:
  "list_all (\<lambda>x. x = 0 \<or> x = (1::int)) xs \<Longrightarrow> sum_list xs = int (length (filter (\<lambda>x. x \<noteq> 0) xs))"
  by (induction xs) auto

lemma all_eq1_nth:
  assumes "length g = m" "\<And>i. i < m \<Longrightarrow> length (g ! i) = n"
  shows "all_eq1 g \<longleftrightarrow> (\<forall>i<m. \<forall>k<n. g ! i ! k = 1)"
  using assms by (auto simp: all_eq1_def list_all_length)

lemma all_eq1_sum_axis2:
  assumes "shape_is 9 9 9 a"
  shows "all_eq1 (sum_axis2 a) \<longleftrightarrow> (\<forall>i<9. \<forall>j<9. sum_list (a ! i ! j) = 1)"
proof -
  note sh = shape_is_length [OF assms] shape_is_row [OF assms] shape_is_cell [OF assms]
  have "all_eq1 (sum_axis2 a) \<longleftrightarrow> (\<forall>i<9. \<forall>j<9. sum_axis2 a ! i ! j = 1)"
    by (rule all_eq1_nth) (use sh in \<open>simp_all add: sum_axis2_def\<close>)
  also have "\<dots> \<longleftrightarrow> (\<forall>i<9. \<forall>j<9. sum_list (a ! i ! j) = 1)"
    using sh by (simp add: sum_axis2_def)
  finally show ?thesis .
qed

lemma all_eq1_sum_axis1:
  assumes "shape_is 9 9 9 a"
  shows "all_eq1 (sum_axis1 a) \<longleftrightarrow> (\<forall>i<9. \<forall>k<9. row_count a i k = 1)"
proof -
  note sh = shape_is_length [OF assms] shape_is_row [OF assms] shape_is_cell [OF assms]
  have "all_eq1 (sum_axis1 a) \<longleftrightarrow> (\<forall>i<9. \<forall>k<9. sum_axis1 a ! i ! k = 1)"
    by (rule all_eq1_nth) (use sh in \<open>simp_all add: sum_axis1_def\<close>)
  also have "\<dots> \<longleftrightarrow> (\<forall>i<9. \<forall>k<9. row_count a i k = 1)"
  proof -
    have "sum_axis1 a ! i ! k = row_count a i k" if "i < 9" "k < 9" for i k
      using that sh(1) map_nth9 [OF sh(2) [OF that(1)], where f = "\<lambda>cell. cell ! k"]
      by (simp add: sum_axis1_def row_count_def)
    then show ?thesis by auto
  qed
  finally show ?thesis .
qed

lemma all_eq1_sum_axis0:
  assumes "shape_is 9 9 9 a"
  shows "all_eq1 (sum_axis0 a) \<longleftrightarrow> (\<forall>j<9. \<forall>k<9. col_count a j k = 1)"
proof -
  note sh = shape_is_length [OF assms] shape_is_row [OF assms] shape_is_cell [OF assms]
  have "all_eq1 (sum_axis0 a) \<longleftrightarrow> (\<forall>j<9. \<forall>k<9. sum_axis0 a ! j ! k = 1)"
    by (rule all_eq1_nth) (simp_all add: sum_axis0_def)
  also have "\<dots> \<longleftrightarrow> (\<forall>j<9. \<forall>k<9. col_count a j k = 1)"
  proof -
    have "sum_axis0 a ! j ! k = col_count a j k" if "j < 9" "k < 9" for j k
      using that map_nth9 [OF sh(1), where f = "\<lambda>row. row ! j ! k"]
      by (simp add: sum_axis0_def col_count_def)
    then show ?thesis by auto
  qed
  finally show ?thesis .
qed

lemma list_all_upt: "list_all P [0..<n] \<longleftrightarrow> (\<forall>i<n. P i)"
  by (auto simp: list_all_iff)

lemma legal_iff:
  "legal a \<longleftrightarrow> (\<forall>i<9. \<forall>k<9. row_count a i k = 1) \<and> (\<forall>j<9. \<forall>k<9. col_count a j k = 1) \<and>
     (\<forall>bi<3. \<forall>bj<3. \<forall>k<9. box_sum a (3 * bi) (3 * bj) ! k = 1)"
  by (auto simp: legal_def list_all_upt box_count_box_sum)

lemma validate_solution_Inr:
  assumes "shape_is 9 9 9 a" "all_eq1 (sum_axis2 a)"
  shows "validate_solution a = Inr (legal a)"
proof (cases "validate_solution a = Inr True")
  case True
  note vf = validate_True_facts [OF True]
  have "legal a"
    unfolding legal_iff
    using vf(3,4) validate_True_boxes [OF True]
    by (simp add: all_eq1_sum_axis1 [OF assms(1)] all_eq1_sum_axis0 [OF assms(1)])
  with True show ?thesis by simp
next
  case False
  have "\<not> legal a"
  proof
    assume l: "legal a"
    then have "all_eq1 (sum_axis1 a)" "all_eq1 (sum_axis0 a)"
      by (simp_all add: legal_iff all_eq1_sum_axis1 [OF assms(1)] all_eq1_sum_axis0 [OF assms(1)])
    moreover have "list_all (\<lambda>x. x = 1) (box_sum a (3 * bi) (3 * bj))" if "bi < 3" "bj < 3" for bi bj
      using l that by (simp add: legal_iff list_all_length length_box_sum)
    from this [of 0 0] this [of 0 1] this [of 1 0] this [of 1 1]
    have "list_all (\<lambda>x. x = 1) (box_sum a 0 0)" "list_all (\<lambda>x. x = 1) (box_sum a 0 3)"
      "list_all (\<lambda>x. x = 1) (box_sum a 3 0)" "list_all (\<lambda>x. x = 1) (box_sum a 3 3)"
      by simp_all
    ultimately have "validate_solution a = Inr True"
      using assms by (simp add: validate_solution_def range_step_036)
    with False show False by simp
  qed
  moreover have "validate_solution a = Inr False"
    using False assms by (auto simp: validate_solution_def)
  ultimately show ?thesis by simp
qed

text \<open>
  Claim C6. Let \<open>a\<close> be an indicator array of shape (9, 9, 9). If some cell does not have
  exactly one digit set, \<open>validate_solution\<close> raises \<^verbatim>\<open>ValueError\<close>, whatever the rows,
  columns and boxes hold, and an exception is not the result \<^verbatim>\<open>False\<close>. Otherwise
  \<open>validate_solution\<close> raises nothing and returns whether the grid is legal: \<^verbatim>\<open>False\<close> as
  soon as a digit does not occur exactly once in some row, some column or one of the nine
  boxes.
\<close>

theorem validate_solution_error_or_legality:
  assumes "shape_is 9 9 9 a" "indicator_cube a"
  shows "validate_solution a =
           (if list_ex (\<lambda>i. list_ex (\<lambda>j. digits_set (a ! i ! j) \<noteq> 1) [0..<9]) [0..<9]
            then Inl ValueError else Inr (legal a))
         \<and> Inl ValueError \<noteq> (Inr False :: error + bool)"
proof -
  note sh = shape_is_length [OF assms(1)] shape_is_row [OF assms(1)] shape_is_cell [OF assms(1)]
  have ds: "sum_list (a ! i ! j) = int (digits_set (a ! i ! j))" if "i < 9" "j < 9" for i j
  proof -
    have "list_all (\<lambda>x. x = 0 \<or> x = 1) (a ! i ! j)"
      using assms(2) that sh by (simp add: indicator_cube_def list_all_length)
    then show ?thesis unfolding digits_set_def by (rule sum_list_indicator)
  qed
  have ex: "list_ex (\<lambda>i. list_ex (\<lambda>j. digits_set (a ! i ! j) \<noteq> 1) [0..<9]) [0..<9]
      \<longleftrightarrow> \<not> all_eq1 (sum_axis2 a)"
    using ds by (auto simp: all_eq1_sum_axis2 [OF assms(1)] list_ex_iff Bex_def)
  show ?thesis
  proof (cases "all_eq1 (sum_axis2 a)")
    case True
    then show ?thesis using ex validate_solution_Inr [OF assms(1) True] by simp
  next
    case False
    then show ?thesis using ex assms(1) by (simp add: validate_solution_def)
  qed
qed

theorem validate_solution_error_or_legality_witness:
  "validate_solution zeros_9x9x9 = Inl ValueError \<and>
   validate_solution (options_of duplicate_grid) = Inr False \<and>
   validate_solution (options_of solved_grid) = Inr True"
proof -
  let ?bad = "\<lambda>a. list_ex (\<lambda>i. list_ex (\<lambda>j. digits_set (a ! i ! j) \<noteq> 1) [0..<9]) [0..<9]"
  have z: "shape_is 9 9 9 zeros_9x9x9" "indicator_cube zeros_9x9x9"
    by code_simp+
  have d: "shape_is 9 9 9 (options_of duplicate_grid)" "indicator_cube (options_of duplicate_grid)"
    by code_simp+
  have g: "shape_is 9 9 9 (options_of solved_grid)" "indicator_cube (options_of solved_grid)"
    by code_simp+
  have cz: "?bad zeros_9x9x9"
    by code_simp
  have cd: "\<not> ?bad (options_of duplicate_grid)" "\<not> legal (options_of duplicate_grid)"
    by code_simp+
  have cg: "\<not> ?bad (options_of solved_grid)" "legal (options_of solved_grid)"
    by code_simp+
  have "validate_solution zeros_9x9x9 = Inl ValueError"
    using validate_solution_error_or_legality [OF z] cz by simp
  moreover have "validate_solution (options_of duplicate_grid) = Inr False"
    using validate_solution_error_or_legality [OF d] cd by simp
  moreover have "validate_solution (options_of solved_grid) = Inr True"
    using validate_solution_error_or_legality [OF g] cg by simp
  ultimately show ?thesis by simp
qed

section \<open>Parsing\<close>

lemma is_digit_find:
  "is_digit c \<longleftrightarrow> find (\<lambda>z. z \<le> c \<and> c < z + 10) decimal_zeros \<noteq> None"
  by (auto simp: is_digit_def find_None_iff list_ex_iff)

lemma digit_value_range: "is_digit c \<Longrightarrow> 0 \<le> digit_value c \<and> digit_value c \<le> 9"
proof -
  assume "is_digit c"
  then obtain z where z: "find (\<lambda>z. z \<le> c \<and> c < z + 10) decimal_zeros = Some z"
    by (auto simp: is_digit_find)
  then have "z \<le> c \<and> c < z + 10"
    by (auto simp: find_Some_iff)
  with z show ?thesis
    by (simp add: digit_value_def to_decimal_def)
qed

lemma digit_value_other: "\<not> is_digit c \<Longrightarrow> digit_value c = - 1"
  by (simp add: is_digit_find digit_value_def to_decimal_def)

lemma int_of_char_eq:
  "int_of_char c = (if is_digit c then Inr (digit_value c) else Inl ValueError)"
  using digit_value_range [of c] digit_value_other [of c]
  by (auto simp: int_of_char_def digit_value_def Let_def)

lemma is_ascii_digit_iff: "is_ascii_digit c \<longleftrightarrow> 48 \<le> c \<and> c \<le> 57"
proof -
  have "is_ascii_digit c \<longleftrightarrow> c \<in> {48, 49, 50, 51, 52, 53, 54, 55, 56, 57}"
    by (simp add: is_ascii_digit_def str_of_def)
  also have "\<dots> \<longleftrightarrow> 48 \<le> c \<and> c \<le> 57"
    by (simp only: insert_iff empty_iff) presburger
  finally show ?thesis .
qed

lemma is_digit_ascii: "c < 128 \<Longrightarrow> is_digit c = is_ascii_digit c"
  by (auto simp add: is_ascii_digit_iff is_digit_def decimal_zeros_def)

lemma digit_value_ascii: "is_ascii_digit c \<Longrightarrow> digit_value c = c - 48"
  by (simp add: is_ascii_digit_iff digit_value_def to_decimal_def decimal_zeros_def)

lemma decimal_runs:
  "\<forall>z \<in> set decimal_zeros. \<forall>k. 0 \<le> k \<and> k < 10 \<longrightarrow> is_digit (z + k) \<and> digit_value (z + k) = k"
  by (simp add: is_digit_def digit_value_def to_decimal_def decimal_zeros_def)

lemma np_array_byte_eq:
  "np_array_byte s = (if list_all is_digit s then Inr (map digit_value s) else Inl ValueError)"
  unfolding np_array_byte_def
  by (induction s) (auto simp: int_of_char_eq)

lemma string_to_np_puzzle_error:
  "length s \<noteq> 81 \<or> \<not> list_all is_digit s \<Longrightarrow> string_to_np_puzzle s = Inl ValueError"
  by (auto simp: string_to_np_puzzle_def np_array_byte_eq np_reshape_9x9_def)

lemma map2_replicate_right:
  "map2 f xs (replicate (length xs) z) = map (\<lambda>x. f x z) xs"
  by (induction xs) auto

lemma map2_map_right: "map2 f xs (map g xs) = map (\<lambda>x. f x (g x)) xs"
  by (induction xs) auto

lemma length_grid_of: "length (grid_of s) = 9"
  by (simp add: grid_of_def)

lemma length_grid_of_row: "length s = 81 \<Longrightarrow> row \<in> set (grid_of s) \<Longrightarrow> length row = 9"
  by (auto simp: grid_of_def)

lemma set_nonzero_zeros:
  assumes "length p = 9" "\<And>row. row \<in> set p \<Longrightarrow> length row = 9"
  shows "set_nonzero p zeros_9x9x9 =
    map (map (\<lambda>v. if v \<noteq> 0 then (replicate 9 0)[nat (v - 1) := 1] else replicate 9 0)) p"
proof -
  have row: "map2 (\<lambda>v cell. if v \<noteq> 0 then cell[nat (v - 1) := 1] else cell) row
      (replicate 9 (replicate 9 0)) =
    map (\<lambda>v. if v \<noteq> 0 then (replicate 9 0)[nat (v - 1) := 1] else replicate 9 0) row"
    if "row \<in> set p" for row
    using map2_replicate_right [of _ row] assms(2) [OF that] by simp
  have "set_nonzero p zeros_9x9x9 =
    map (\<lambda>row. map2 (\<lambda>v cell. if v \<noteq> 0 then cell[nat (v - 1) := 1] else cell) row
      (replicate 9 (replicate 9 0))) p"
    unfolding set_nonzero_def zeros_9x9x9_def
    using map2_replicate_right [of _ p] assms(1) by simp
  also have "\<dots> = map (map (\<lambda>v. if v \<noteq> 0 then (replicate 9 0)[nat (v - 1) := 1] else replicate 9 0)) p"
    by (rule map_cong [OF refl]) (rule row)
  finally show ?thesis .
qed

lemma set_zero_map:
  "set_zero p (map (map h) p) = map (map (\<lambda>v. if v = 0 then map (\<lambda>_. 1) (h v) else h v)) p"
proof -
  have "map2 (map2 f) p (map (map h) p) = map (map (\<lambda>v. f v (h v))) p" for f :: "int \<Rightarrow> int list \<Rightarrow> int list"
    by (simp add: map2_map_right)
  then show ?thesis unfolding set_zero_def .
qed

lemma string_to_np_puzzle_ok:
  assumes "length s = 81" "list_all is_digit s"
  shows "string_to_np_puzzle s = Inr (grid_of s, map (map cell_of_digit) (grid_of s))"
proof -
  have r: "np_reshape_9x9 (map digit_value s) = Inr (grid_of s)"
    using assms(1) by (simp add: np_reshape_9x9_def grid_of_def)
  let ?h = "\<lambda>v::int. if v \<noteq> 0 then (replicate 9 0)[nat (v - 1) := 1] else replicate 9 (0::int)"
  have 1: "set_nonzero (grid_of s) zeros_9x9x9 = map (map ?h) (grid_of s)"
    by (rule set_nonzero_zeros [OF length_grid_of length_grid_of_row [OF assms(1)]])
  have 2: "(\<lambda>v. if v = 0 then map (\<lambda>_. 1) (?h v) else ?h v) = cell_of_digit"
    by (auto simp: fun_eq_iff cell_of_digit_def)
  have "set_zero (grid_of s) (set_nonzero (grid_of s) zeros_9x9x9) =
      map (map cell_of_digit) (grid_of s)"
    unfolding 1 set_zero_map 2 ..
  then show ?thesis
    using assms r by (simp add: string_to_np_puzzle_def np_array_byte_eq)
qed

lemma grid_of_nth:
  assumes "length s = 81" "i < 9" "j < 9"
  shows "grid_of s ! i ! j = digit_value (s ! (9 * i + j))"
proof -
  have "9 * i + j < 81" using assms(2,3) by simp
  then show ?thesis using assms by (simp add: grid_of_def)
qed

text \<open>
  Claim C5, as the code has it. \<open>solve\<close> raises \<^verbatim>\<open>ValueError\<close> for every string whose
  length is not 81 or that holds a character that is not a decimal digit. A string of 81
  decimal digits is parsed: each cell holds the value of its character; a digit of value
  0 gets all nine candidates and another digit only itself. Among the characters of ASCII
  the decimal digits are \<^verbatim>\<open>0\<close> to \<^verbatim>\<open>9\<close>, with their usual values, so that a period is
  refused; the ten characters of every other run of the database are digits too, with
  the values 0 to 9.
\<close>

theorem solve_format_error:
  "(length s \<noteq> 81 \<or> \<not> list_all is_digit s \<longrightarrow> solve s m = Some (Inl ValueError)) \<and>
   (length s = 81 \<and> list_all is_digit s \<longrightarrow>
      (\<exists>p a. string_to_np_puzzle s = Inr (p, a) \<and>
         (\<forall>i<9. \<forall>j<9. p ! i ! j = digit_value (s ! (9 * i + j)) \<and>
            a ! i ! j = (if digit_value (s ! (9 * i + j)) = 0 then replicate 9 1
               else (replicate 9 0)[nat (digit_value (s ! (9 * i + j)) - 1) := 1])))) \<and>
   (\<forall>c<128. is_digit c = is_ascii_digit c) \<and>
   (\<forall>c. is_ascii_digit c \<longrightarrow> digit_value c = c - of_char (CHR ''0'')) \<and>
   \<not> is_digit (of_char (CHR ''.'')) \<and>
   (\<forall>z \<in> set decimal_zeros. \<forall>k. 0 \<le> k \<and> k < 10 \<longrightarrow>
      is_digit (z + k) \<and> digit_value (z + k) = k)"
proof (intro conjI impI)
  assume "length s \<noteq> 81 \<or> \<not> list_all is_digit s"
  then show "solve s m = Some (Inl ValueError)"
    by (simp add: solve_def string_to_np_puzzle_error)
next
  assume a: "length s = 81 \<and> list_all is_digit s"
  then have ok: "string_to_np_puzzle s = Inr (grid_of s, map (map cell_of_digit) (grid_of s))"
    by (simp add: string_to_np_puzzle_ok)
  have "grid_of s ! i ! j = digit_value (s ! (9 * i + j)) \<and>
      map (map cell_of_digit) (grid_of s) ! i ! j =
        (if digit_value (s ! (9 * i + j)) = 0 then replicate 9 1
         else (replicate 9 0)[nat (digit_value (s ! (9 * i + j)) - 1) := 1])"
    if "i < 9" "j < 9" for i j
  proof -
    have l: "length (grid_of s ! i) = 9"
      using a that(1) length_grid_of_row [of s "grid_of s ! i"] by (simp add: length_grid_of)
    show ?thesis
      using that a l
      by (simp add: grid_of_nth length_grid_of cell_of_digit_def)
  qed
  with ok show "\<exists>p a. string_to_np_puzzle s = Inr (p, a) \<and>
         (\<forall>i<9. \<forall>j<9. p ! i ! j = digit_value (s ! (9 * i + j)) \<and>
            a ! i ! j = (if digit_value (s ! (9 * i + j)) = 0 then replicate 9 1
               else (replicate 9 0)[nat (digit_value (s ! (9 * i + j)) - 1) := 1]))"
    by blast
next
  show "\<forall>c<128. is_digit c = is_ascii_digit c"
    by (simp add: is_digit_ascii)
next
  show "\<forall>c. is_ascii_digit c \<longrightarrow> digit_value c = c - of_char (CHR ''0'')"
    by (simp add: digit_value_ascii)
next
  show "\<not> is_digit (of_char (CHR ''.''))"
    by (simp add: is_digit_ascii is_ascii_digit_iff)
next
  show "\<forall>z \<in> set decimal_zeros. \<forall>k. 0 \<le> k \<and> k < 10 \<longrightarrow>
      is_digit (z + k) \<and> digit_value (z + k) = k"
    by (rule decimal_runs)
qed

text \<open>
  The claim as stated fails: 81 periods raise \<^verbatim>\<open>ValueError\<close>, while 81 zeros are accepted
  (and run into the limit of one iteration).
\<close>

theorem period_rejected:
  "solve (str_of (replicate 81 (CHR ''.''))) 1 = Some (Inl ValueError) \<and>
   solve (str_of (replicate 81 (CHR ''0''))) 1 = Some (Inr None)"
  by code_simp

theorem solve_format_error_witness:
  "solve (replicate 82 48) 10000000 = Some (Inl ValueError) \<and>
   solve (46 # replicate 80 48) 10000000 = Some (Inl ValueError) \<and>
   (\<exists>p a. string_to_np_puzzle (65301 # replicate 80 48) = Inr (p, a) \<and>
      p ! 0 ! 0 = 5 \<and> a ! 0 ! 0 = [0, 0, 0, 0, 1, 0, 0, 0, 0] \<and>
      p ! 0 ! 1 = 0 \<and> a ! 0 ! 1 = replicate 9 1) \<and>
   is_digit 48 \<and> is_ascii_digit 48 \<and> digit_value 48 = 0 \<and> \<not> is_digit 46 \<and>
   is_digit 65301 \<and> \<not> is_ascii_digit 65301 \<and> digit_value 65301 = 5"
proof -
  note t = solve_format_error
  note ascii = t [of "[]" 0, THEN conjunct2, THEN conjunct2, THEN conjunct1]
  note val = t [of "[]" 0, THEN conjunct2, THEN conjunct2, THEN conjunct2, THEN conjunct1]
  note period = t [of "[]" 0, THEN conjunct2, THEN conjunct2, THEN conjunct2, THEN conjunct2,
      THEN conjunct1]
  note runs = t [of "[]" 0, THEN conjunct2, THEN conjunct2, THEN conjunct2, THEN conjunct2,
      THEN conjunct2]
  have a48: "is_ascii_digit 48"
    by (simp add: is_ascii_digit_def str_of_def)
  have d48: "is_digit 48"
    using ascii [rule_format, of 48] a48 by simp
  have v48: "digit_value 48 = 0"
    using val [rule_format, OF a48] by simp
  have d46: "\<not> is_digit 46"
    using period by simp
  have a65301: "\<not> is_ascii_digit 65301"
    by (simp add: is_ascii_digit_def str_of_def)
  have z: "65296 \<in> set decimal_zeros"
    by (simp add: decimal_zeros_def)
  have f: "is_digit 65301 \<and> digit_value 65301 = 5"
    using runs [rule_format, OF z, of 5] by simp
  have 1: "length (replicate 82 (48::int)) \<noteq> 81 \<or> \<not> list_all is_digit (replicate 82 48)"
    by simp
  have 2: "length (46 # replicate 80 (48::int)) \<noteq> 81 \<or> \<not> list_all is_digit (46 # replicate 80 48)"
    using d46 by simp
  have 3: "length (65301 # replicate 80 (48::int)) = 81 \<and>
      list_all is_digit (65301 # replicate 80 48)"
    using d48 f by (simp add: list_all_iff)
  have r1: "solve (replicate 82 48) 10000000 = Some (Inl ValueError)"
    using t [of "replicate 82 48" 10000000, THEN conjunct1] 1 by (rule mp)
  have r2: "solve (46 # replicate 80 48) 10000000 = Some (Inl ValueError)"
    using t [of "46 # replicate 80 48" 10000000, THEN conjunct1] 2 by (rule mp)
  have "\<exists>p a. string_to_np_puzzle (65301 # replicate 80 48) = Inr (p, a) \<and>
      (\<forall>i<9. \<forall>j<9. p ! i ! j = digit_value ((65301 # replicate 80 48) ! (9 * i + j)) \<and>
            a ! i ! j = (if digit_value ((65301 # replicate 80 48) ! (9 * i + j)) = 0
               then replicate 9 1
               else (replicate 9 0)[nat (digit_value ((65301 # replicate 80 48) ! (9 * i + j)) - 1) := 1]))"
    using t [of "65301 # replicate 80 48" 1, THEN conjunct2, THEN conjunct1] 3 by (rule mp)
  then obtain p a where pa: "string_to_np_puzzle (65301 # replicate 80 48) = Inr (p, a)"
    and c: "\<And>i j. i < 9 \<Longrightarrow> j < 9 \<Longrightarrow>
            p ! i ! j = digit_value ((65301 # replicate 80 48) ! (9 * i + j)) \<and>
            a ! i ! j = (if digit_value ((65301 # replicate 80 48) ! (9 * i + j)) = 0
               then replicate 9 1
               else (replicate 9 0)[nat (digit_value ((65301 # replicate 80 48) ! (9 * i + j)) - 1) := 1])"
    by blast
  have n4: "nat 4 = Suc (Suc (Suc (Suc 0)))" by simp
  have r9: "replicate 9 (0::int) = [0, 0, 0, 0, 0, 0, 0, 0, 0]"
    by (simp add: numeral_eq_Suc)
  from c [of 0 0] f
  have c0: "p ! 0 ! 0 = 5 \<and> a ! 0 ! 0 = [0, 0, 0, 0, 1, 0, 0, 0, 0]"
    by (simp add: n4 r9)
  have e1: "(65301 # replicate 80 (48::int)) ! (9 * 0 + 1) = 48"
    by simp
  from c [of 0 1] v48
  have c1: "p ! 0 ! 1 = 0 \<and> a ! 0 ! 1 = replicate 9 1"
    unfolding e1 by simp
  from r1 r2 pa c0 c1 show ?thesis
    using d48 a48 v48 d46 f a65301 by blast
qed

section \<open>The round trip through the string format\<close>

lemma take_drop_concat:
  "\<forall>row \<in> set G. length row = n \<Longrightarrow> i < length G \<Longrightarrow> take n (drop (n * i) (concat G)) = G ! i"
proof (induction G arbitrary: i)
  case Nil
  then show ?case by simp
next
  case (Cons row G)
  show ?case
  proof (cases i)
    case 0
    then show ?thesis using Cons.prems by simp
  next
    case (Suc i')
    then show ?thesis using Cons.prems Cons.IH [of i'] by simp
  qed
qed

lemma length_concat_const:
  "\<forall>row \<in> set G. length row = n \<Longrightarrow> length (concat G) = n * length G"
  by (induction G) auto

lemma reshape_concat:
  assumes "length G = 9" "\<forall>row \<in> set G. length row = 9"
  shows "map (\<lambda>i. take 9 (drop (9 * i) (map h (concat G)))) [0..<9] = map (map h) G"
proof (rule nth_equalityI)
  show "length (map (\<lambda>i. take 9 (drop (9 * i) (map h (concat G)))) [0..<9]) = length (map (map h) G)"
    using assms(1) by simp
next
  fix i
  assume "i < length (map (\<lambda>i. take 9 (drop (9 * i) (map h (concat G)))) [0..<9])"
  then have i: "i < 9" by simp
  have "take 9 (drop (9 * i) (map h (concat G))) = map h (take 9 (drop (9 * i) (concat G)))"
    by (simp add: take_map drop_map)
  also have "\<dots> = map h (G ! i)"
    using take_drop_concat [OF assms(2), of i] i assms(1) by simp
  finally show "map (\<lambda>i. take 9 (drop (9 * i) (map h (concat G)))) [0..<9] ! i = map (map h) G ! i"
    using i assms(1) by simp
qed

lemma str_nat_digit: "n < 10 \<Longrightarrow> str_nat n = [48 + int n]"
  by (subst str_nat.simps) simp

lemma is_digit_str_nat: "n < 10 \<Longrightarrow> is_digit (48 + int n)"
  by (simp add: is_digit_ascii is_ascii_digit_iff)

lemma digit_value_str_nat: "n < 10 \<Longrightarrow> digit_value (48 + int n) = int n"
  using digit_value_ascii [of "48 + int n"] by (simp add: is_ascii_digit_iff)

lemma indicator_sum_nonneg: "list_all (\<lambda>x. x = 0 \<or> x = (1::int)) xs \<Longrightarrow> 0 \<le> sum_list xs"
  by (induction xs) auto

lemma indicator_sum_zero:
  "list_all (\<lambda>x. x = 0 \<or> x = (1::int)) xs \<Longrightarrow> sum_list xs = 0 \<Longrightarrow> xs = replicate (length xs) 0"
proof (induction xs)
  case Nil
  then show ?case by simp
next
  case (Cons x xs)
  then have "0 \<le> sum_list xs" by (simp add: indicator_sum_nonneg)
  with Cons show ?case by auto
qed

lemma one_hot_cell_form:
  "list_all (\<lambda>x. x = 0 \<or> x = (1::int)) xs \<Longrightarrow> sum_list xs = 1 \<Longrightarrow>
     \<exists>k<length xs. xs = (replicate (length xs) 0)[k := 1]"
proof (induction xs)
  case Nil
  then show ?case by simp
next
  case (Cons x xs)
  from Cons.prems(1) have "x = 0 \<or> x = 1" by simp
  then show ?case
  proof
    assume x: "x = 0"
    with Cons obtain k where "k < length xs" "xs = (replicate (length xs) 0)[k := 1]"
      by auto
    then have "Suc k < length (x # xs) \<and> x # xs = (replicate (length (x # xs)) 0)[Suc k := 1]"
      using x by simp
    then show ?thesis by blast
  next
    assume x: "x = 1"
    with Cons.prems have "xs = replicate (length xs) 0"
      by (intro indicator_sum_zero) auto
    then have "0 < length (x # xs) \<and> x # xs = (replicate (length (x # xs)) 0)[0 := 1]"
      using x by simp
    then show ?thesis by blast
  qed
qed

lemma argmax_from_one: "list_all (\<lambda>x. x \<le> 1) xs \<Longrightarrow> argmax_from 1 bi n xs = bi"
  by (induction xs arbitrary: n) auto

lemma argmax_from_zero:
  "k < m \<Longrightarrow> argmax_from 0 bi n ((replicate m 0)[k := 1]) = n + k"
proof (induction m arbitrary: k n bi)
  case 0
  then show ?case by simp
next
  case (Suc m)
  show ?case
  proof (cases k)
    case 0
    then show ?thesis by (simp add: argmax_from_one list_all_iff)
  next
    case (Suc k')
    then show ?thesis using Suc.prems Suc.IH [of k' bi "Suc n"] by simp
  qed
qed

lemma argmax_one_hot: "k < m \<Longrightarrow> argmax ((replicate m 0)[k := 1]) = k"
proof (cases m)
  case 0
  then show "k < m \<Longrightarrow> ?thesis" by simp
next
  case (Suc m')
  assume k: "k < m"
  show ?thesis
  proof (cases k)
    case 0
    then show ?thesis using Suc by (simp add: argmax_def argmax_from_one list_all_iff)
  next
    case (Suc k')
    then show ?thesis using \<open>m = Suc m'\<close> k argmax_from_zero [of k' m' 0 1]
      by (simp add: argmax_def)
  qed
qed

lemma one_hot_cell:
  assumes "list_all (\<lambda>x. x = 0 \<or> x = (1::int)) c" "sum_list c = 1"
  shows "argmax c < length c" "c = (replicate (length c) 0)[argmax c := 1]"
proof -
  from one_hot_cell_form [OF assms] obtain k where k: "k < length c"
    and c: "c = (replicate (length c) 0)[k := 1]" by blast
  have "argmax c = k"
    using argmax_one_hot [OF k] c by simp
  then show "argmax c < length c" "c = (replicate (length c) 0)[argmax c := 1]"
    using k c by simp_all
qed

lemma one_hot_cube_cells:
  assumes "one_hot_cube G" "row \<in> set G" "cell \<in> set row"
  shows "length cell = 9" "list_all (\<lambda>x. x = 0 \<or> x = 1) cell" "sum_list cell = 1"
  using assms
  by (auto simp: one_hot_cube_def shape_is_def indicator_cube_def all_eq1_def sum_axis2_def
      list_all_iff)

lemma one_hot_cube_rows:
  assumes "one_hot_cube G"
  shows "length G = 9" "\<forall>row \<in> set G. length row = 9"
  using assms by (auto simp: one_hot_cube_def shape_is_def)

text \<open>
  Claim C9. For every fully known grid \<open>G\<close> (a one-hot indicator array of shape
  (9, 9, 9)), \<open>_string_to_np_puzzle\<close> applied to \<open>_np_puzzle_to_string G\<close> raises nothing
  and returns \<open>G\<close> as its array of candidates, and the digits of \<open>G\<close> as its grid.
\<close>

theorem string_round_trip:
  assumes "one_hot_cube G"
  shows "string_to_np_puzzle (np_puzzle_to_string G) = Inr (puzzle_of_options G, G)"
proof -
  let ?h = "\<lambda>cell. int (argmax cell) + 1"
  let ?s = "np_puzzle_to_string G"
  note rows = one_hot_cube_rows [OF assms]
  have cells: "length cell = 9 \<and> list_all (\<lambda>x. x = 0 \<or> x = 1) cell \<and> sum_list cell = 1"
    if "cell \<in> set (concat G)" for cell
    using that one_hot_cube_cells [OF assms] by auto
  have am: "argmax cell < 9" if "cell \<in> set (concat G)" for cell
    using cells [OF that] one_hot_cell(1) [of cell] by simp
  have e: "map (\<lambda>cell. str_nat (argmax cell + 1)) (concat G) =
      map (\<lambda>cell. [48 + int (argmax cell + 1)]) (concat G)"
    by (rule map_cong [OF refl]) (use am in \<open>simp add: str_nat_digit\<close>)
  have s: "?s = map (\<lambda>cell. 48 + int (argmax cell + 1)) (concat G)"
    unfolding np_puzzle_to_string_def e by (rule concat_map_singleton)
  have len: "length ?s = 81"
    unfolding s using length_concat_const [OF rows(2)] rows(1) by simp
  have "is_digit (48 + int (argmax cell + 1))" if "cell \<in> set (concat G)" for cell
    using am [OF that] by (intro is_digit_str_nat) simp
  then have dig: "list_all is_digit ?s"
    unfolding s list_all_iff by (simp del: set_concat)
  have "map digit_value ?s = map (\<lambda>cell. digit_value (48 + int (argmax cell + 1))) (concat G)"
    unfolding s by simp
  also have "\<dots> = map ?h (concat G)"
  proof (rule map_cong [OF refl])
    fix cell assume "cell \<in> set (concat G)"
    from am [OF this] show "digit_value (48 + int (argmax cell + 1)) = ?h cell"
      using digit_value_str_nat [of "argmax cell + 1"] by simp
  qed
  finally have dv: "map digit_value ?s = map ?h (concat G)" .
  have g: "grid_of ?s = map (map ?h) G"
    unfolding grid_of_def dv by (rule reshape_concat [OF rows])
  have p: "puzzle_of_options G = map (map ?h) G"
    unfolding puzzle_of_options_def
    by (intro map_cong refl) (use one_hot_cube_cells(3) [OF assms] in simp)
  have "cell_of_digit (?h cell) = cell" if "cell \<in> set (concat G)" for cell
  proof -
    have "cell = (replicate 9 0)[argmax cell := 1]"
      using cells [OF that] one_hot_cell(2) [of cell] by simp
    then show ?thesis by (simp add: cell_of_digit_def)
  qed
  then have c: "map (map (\<lambda>cell. cell_of_digit (?h cell))) G = G"
    by (intro map_idI) auto
  show ?thesis
    using string_to_np_puzzle_ok [OF len dig] c by (simp add: g p o_def)
qed

theorem string_round_trip_witness:
  "one_hot_cube (options_of solved_grid) \<and>
   np_puzzle_to_string (options_of solved_grid) = solved_grid \<and>
   string_to_np_puzzle (np_puzzle_to_string (options_of solved_grid)) =
     Inr (puzzle_of_options (options_of solved_grid), options_of solved_grid)"
proof -
  have h: "one_hot_cube (options_of solved_grid)"
    by code_simp
  have s: "np_puzzle_to_string (options_of solved_grid) = solved_grid"
    by code_simp
  from string_round_trip [OF h] h s show ?thesis by simp
qed

section \<open>The generator of changes\<close>

lemma in_itertools_product:
  "comb \<in> set (itertools_product xss) \<longleftrightarrow> list_all2 (\<lambda>x xs. x \<in> set xs) comb xss"
proof (induction xss arbitrary: comb)
  case Nil
  then show ?case by auto
next
  case (Cons xs xss)
  show ?case
  proof (cases comb)
    case Nil
    then show ?thesis by auto
  next
    case (Cons c cs)
    then show ?thesis using Cons.IH [of cs] by auto
  qed
qed

lemma itertools_product_nonempty:
  "\<forall>xs \<in> set xss. xs \<noteq> [] \<Longrightarrow> itertools_product xss \<noteq> []"
proof (induction xss)
  case Nil
  then show ?case by simp
next
  case (Cons xs xss)
  then obtain x xs' where "xs = x # xs'" by (cases xs) auto
  with Cons show ?case by simp
qed

lemma per_cell_distinct:
  "list_all2 (\<lambda>x xs. x \<in> set xs) comb xss \<Longrightarrow> per_cell xss \<Longrightarrow> distinct comb"
proof (induction rule: list_all2_induct)
  case Nil
  then show ?case by simp
next
  case (Cons x comb xs xss)
  have "x \<notin> set comb"
  proof
    assume "x \<in> set comb"
    then obtain n where n: "n < length comb" "comb ! n = x"
      by (auto simp: in_set_conv_nth)
    with Cons.hyps(2) have "x \<in> set (xss ! n)" "n < length xss"
      by (auto simp: list_all2_conv_all_nth)
    then show False using Cons.prems Cons.hyps(1) by (auto dest: nth_mem)
  qed
  with Cons show ?case by simp
qed

lemma later_yields_length: "length (later_yields prev rest) = length rest"
  by (induction rest arbitrary: prev) auto

lemma later_yields_nth:
  "n < length rest \<Longrightarrow>
     later_yields prev rest ! n =
       map (\<lambda>(c, p). (Some p, c)) (filter (\<lambda>(c, p). c \<noteq> p) (zip (rest ! n) ((prev # rest) ! n)))"
proof (induction rest arbitrary: prev n)
  case Nil
  then show ?case by simp
next
  case (Cons comb rest)
  show ?case
  proof (cases n)
    case 0
    then show ?thesis by simp
  next
    case (Suc n')
    then show ?thesis using Cons.prems Cons.IH [of n' comb] by simp
  qed
qed

lemma zip_pairs_differences:
  assumes "length comb = length prev"
  shows "map (\<lambda>(c, p). (Some p, c)) (filter (\<lambda>(c, p). c \<noteq> p) (zip comb prev)) =
    differences prev comb"
proof -
  have "zip comb prev = map (\<lambda>n. (comb ! n, prev ! n)) [0..<length comb]"
    using assms by (intro nth_equalityI) auto
  then show ?thesis
    by (simp add: differences_def filter_map o_def)
qed

lemma find_pairs_None:
  "x \<notin> set prev \<Longrightarrow>
     find (\<lambda>pc. fst pc = Some x) (map (\<lambda>(c, p). (Some p, c)) (filter (\<lambda>(c, p). c \<noteq> p) (zip comb prev)))
       = None"
  by (auto simp: find_None_iff dest: set_zip_rightD)

lemma apply_delta_pairs:
  assumes "length prev = length comb" "distinct prev"
  shows "apply_delta (map (\<lambda>(c, p). (Some p, c)) (filter (\<lambda>(c, p). c \<noteq> p) (zip comb prev))) prev
    = comb"
  using assms
proof (induction prev comb rule: list_induct2)
  case Nil
  then show ?case by (simp add: apply_delta_def)
next
  case (Cons p prev c comb)
  let ?d = "map (\<lambda>(c, p). (Some p, c)) (filter (\<lambda>(c, p). c \<noteq> p) (zip comb prev))"
  let ?u = "\<lambda>d x. case find (\<lambda>pc. fst pc = Some x) d of None \<Rightarrow> x | Some pc \<Rightarrow> snd pc"
  from Cons.prems have p: "p \<notin> set prev" and d: "distinct prev" by simp_all
  have ih: "map (?u ?d) prev = comb"
    using Cons.IH [OF d] by (simp add: apply_delta_def)
  have tl: "map (?u ((Some p, c) # ?d)) prev = map (?u ?d) prev"
    by (rule map_cong [OF refl]) (use p in auto)
  show ?case
  proof (cases "c = p")
    case True
    then show ?thesis
      using ih find_pairs_None [OF p, of comb] by (simp add: apply_delta_def)
  next
    case False
    then show ?thesis
      using ih tl by (simp add: apply_delta_def)
  qed
qed

lemma replay_from_later_yields:
  assumes "\<forall>comb \<in> set (prev # rest). length comb = m \<and> distinct comb"
  shows "replay_from prev (later_yields prev rest) = prev # rest"
  using assms
proof (induction rest arbitrary: prev)
  case Nil
  then show ?case by simp
next
  case (Cons comb rest)
  have "apply_delta (map (\<lambda>(c, p). (Some p, c)) (filter (\<lambda>(c, p). c \<noteq> p) (zip comb prev))) prev
      = comb"
    using Cons.prems by (intro apply_delta_pairs) auto
  then show ?case using Cons.IH [of comb] Cons.prems by simp
qed

text \<open>
  Claim C7. For non-empty candidate lists the generator yields one element for each
  combination of \<open>itertools.product\<close>. The first yield is the whole first combination,
  each pair with \<^verbatim>\<open>None\<close> as its previous element. Every later yield holds exactly the
  pairs (previous, current) at the positions where the combination differs from the one
  before it. When the lists are per cell, replaying the yields in order gives the
  combinations of the product in the same order.
\<close>

theorem unique_combinations_yields:
  assumes "\<forall>xs \<in> set iterables. xs \<noteq> []"
  shows "\<exists>yields. unique_combinations iterables = Inr yields \<and>
     length yields = length (itertools_product iterables) \<and>
     yields ! 0 = map (\<lambda>c. (None, c)) (itertools_product iterables ! 0) \<and>
     (\<forall>n. Suc n < length yields \<longrightarrow>
        yields ! Suc n =
          differences (itertools_product iterables ! n) (itertools_product iterables ! Suc n)) \<and>
     (per_cell iterables \<longrightarrow> replay yields = itertools_product iterables)"
proof -
  from itertools_product_nonempty [OF assms] obtain comb rest
    where prod: "itertools_product iterables = comb # rest"
    by (cases "itertools_product iterables") auto
  let ?yields = "map (\<lambda>c. (None, c)) comb # later_yields comb rest"
  have u: "unique_combinations iterables = Inr ?yields"
    by (simp add: unique_combinations_def prod)
  have len: "length x = length iterables" if "x \<in> set (comb # rest)" for x
    using that in_itertools_product [of x iterables] prod by (auto dest: list_all2_lengthD)
  have later: "?yields ! Suc n = differences ((comb # rest) ! n) ((comb # rest) ! Suc n)"
    if "Suc n < length ?yields" for n
  proof -
    from that have n: "n < length rest" by (simp add: later_yields_length)
    have "length (rest ! n) = length ((comb # rest) ! n)"
      using n len [of "rest ! n"] len [of "(comb # rest) ! n"] by (cases n) simp_all
    then show ?thesis
      using later_yields_nth [OF n, of comb] zip_pairs_differences by simp
  qed
  have rep: "replay ?yields = comb # rest" if "per_cell iterables"
  proof -
    have "\<forall>x \<in> set (comb # rest). length x = length iterables \<and> distinct x"
      using len in_itertools_product [of _ iterables] prod per_cell_distinct [OF _ that]
      by (metis list.set_intros(1,2) set_ConsD)
    from replay_from_later_yields [OF this] show ?thesis
      by (simp add: replay_def o_def)
  qed
  show ?thesis
    using u later rep by (intro exI [of _ ?yields]) (simp add: prod later_yields_length)
qed

theorem unique_combinations_yields_witness:
  "unique_combinations [[(0, 1), (0, 2)], [(1, 3)], [(2, 4), (2, 5 :: nat)]] =
     Inr [[(None, (0 :: nat, 1)), (None, (1, 3)), (None, (2, 4))],
          [(Some (2, 4), (2, 5))],
          [(Some (0, 1), (0, 2)), (Some (2, 5), (2, 4))],
          [(Some (2, 4), (2, 5))]] \<and>
   replay [[(None, (0 :: nat, 1)), (None, (1, 3)), (None, (2, 4))],
          [(Some (2, 4), (2, 5))],
          [(Some (0, 1), (0, 2)), (Some (2, 5), (2, 4))],
          [(Some (2, 4), (2, 5 :: nat))]] =
     itertools_product [[(0, 1), (0, 2)], [(1, 3)], [(2, 4), (2, 5)]]"
proof -
  let ?its = "[[(0 :: nat, 1 :: nat), (0, 2)], [(1, 3)], [(2, 4), (2, 5)]]"
  have ne: "\<forall>xs \<in> set ?its. xs \<noteq> []" by simp
  have pc: "per_cell ?its" by simp
  from unique_combinations_yields [OF ne] pc obtain yields where
    "unique_combinations ?its = Inr yields" "replay yields = itertools_product ?its"
    by blast
  moreover have "unique_combinations ?its =
     Inr [[(None, (0 :: nat, 1)), (None, (1, 3)), (None, (2, 4))],
          [(Some (2, 4), (2, 5))],
          [(Some (0, 1), (0, 2)), (Some (2, 5), (2, 4))],
          [(Some (2, 4), (2, 5))]]"
    by (simp add: unique_combinations_def)
  ultimately show ?thesis by simp
qed

section \<open>Propagation: the invariant and the end of the loop\<close>

lemma length_map_idx: "length (map_idx f n xs) = length xs"
  by (induction xs arbitrary: n) auto

lemma nth_map_idx: "i < length xs \<Longrightarrow> map_idx f n xs ! i = f (n + i) (xs ! i)"
proof (induction xs arbitrary: n i)
  case Nil
  then show ?case by simp
next
  case (Cons x xs)
  then show ?case by (cases i) auto
qed

lemma map_idx_eq_map: "map_idx f n xs = map (\<lambda>i. f (n + i) (xs ! i)) [0..<length xs]"
  by (rule nth_equalityI) (simp_all add: length_map_idx nth_map_idx)

lemma length_assign_slice: "length (assign_slice R C K v a) = length a"
  by (simp add: assign_slice_def length_map_idx)

lemma length_assign_slice_row:
  "i < length a \<Longrightarrow> length (assign_slice R C K v a ! i) = length (a ! i)"
  by (simp add: assign_slice_def length_map_idx nth_map_idx)

lemma length_assign_slice_cell:
  "i < length a \<Longrightarrow> j < length (a ! i) \<Longrightarrow>
     length (assign_slice R C K v a ! i ! j) = length (a ! i ! j)"
  by (simp add: assign_slice_def length_map_idx nth_map_idx)

lemma nth_assign_slice:
  "i < length a \<Longrightarrow> j < length (a ! i) \<Longrightarrow> k < length (a ! i ! j) \<Longrightarrow>
     assign_slice R C K v a ! i ! j ! k = (if R i \<and> C j \<and> K k then v else a ! i ! j ! k)"
  by (simp add: assign_slice_def length_map_idx nth_map_idx)

lemma shape_isI:
  assumes "length a = l" "\<And>i. i < l \<Longrightarrow> length (a ! i) = m"
    "\<And>i j. i < l \<Longrightarrow> j < m \<Longrightarrow> length (a ! i ! j) = n"
  shows "shape_is l m n a"
  unfolding shape_is_def using assms by (auto simp: in_set_conv_nth)

lemma shape_assign_slice:
  assumes "shape_is l m n a"
  shows "shape_is l m n (assign_slice R C K v a)"
proof (rule shape_isI)
  show "length (assign_slice R C K v a) = l"
    using shape_is_length [OF assms] by (simp add: length_assign_slice)
  show "length (assign_slice R C K v a ! i) = m" if "i < l" for i
    using that shape_is_length [OF assms] shape_is_row [OF assms that]
    by (simp add: length_assign_slice_row)
  show "length (assign_slice R C K v a ! i ! j) = n" if "i < l" "j < m" for i j
    using that shape_is_length [OF assms] shape_is_row [OF assms that(1)]
      shape_is_cell [OF assms that]
    by (simp add: length_assign_slice_cell)
qed

lemma entry_assign_slice:
  assumes "shape_is l m n a" "i < l" "j < m" "k < n"
  shows "assign_slice R C K v a ! i ! j ! k = (if R i \<and> C j \<and> K k then v else a ! i ! j ! k)"
  using assms shape_is_length [OF assms(1)] shape_is_row [OF assms(1,2)]
    shape_is_cell [OF assms(1,2,3)]
  by (simp add: nth_assign_slice)

lemma cube_eqI:
  assumes "shape_is l m n a" "shape_is l m n b"
    "\<And>i j k. i < l \<Longrightarrow> j < m \<Longrightarrow> k < n \<Longrightarrow> a ! i ! j ! k = b ! i ! j ! k"
  shows "a = b"
proof (rule nth_equalityI)
  show "length a = length b"
    using shape_is_length assms(1,2) by metis
next
  fix i assume "i < length a"
  then have i: "i < l" using shape_is_length [OF assms(1)] by simp
  show "a ! i = b ! i"
  proof (rule nth_equalityI)
    show "length (a ! i) = length (b ! i)"
      using shape_is_row [OF assms(1) i] shape_is_row [OF assms(2) i] by simp
  next
    fix j assume "j < length (a ! i)"
    then have j: "j < m" using shape_is_row [OF assms(1) i] by simp
    show "a ! i ! j = b ! i ! j"
    proof (rule nth_equalityI)
      show "length (a ! i ! j) = length (b ! i ! j)"
        using shape_is_cell [OF assms(1) i j] shape_is_cell [OF assms(2) i j] by simp
    next
      fix k assume "k < length (a ! i ! j)"
      then have "k < n" using shape_is_cell [OF assms(1) i j] by simp
      then show "a ! i ! j ! k = b ! i ! j ! k" using assms(3) i j by simp
    qed
  qed
qed

lemma cube_le_iff: "cube_le a b \<longleftrightarrow> (\<forall>i<9. \<forall>j<9. \<forall>k<9. a ! i ! j ! k \<le> b ! i ! j ! k)"
  by (simp add: cube_le_def list_all_upt)

lemma indicator_cube_iff:
  assumes "shape_is l m n a"
  shows "indicator_cube a \<longleftrightarrow> (\<forall>i<l. \<forall>j<m. \<forall>k<n. a ! i ! j ! k = 0 \<or> a ! i ! j ! k = 1)"
proof -
  have "indicator_cube a \<longleftrightarrow>
    (\<forall>i<length a. \<forall>j<length (a ! i). \<forall>k<length (a ! i ! j). a ! i ! j ! k = 0 \<or> a ! i ! j ! k = 1)"
    by (simp add: indicator_cube_def list_all_length)
  also have "\<dots> \<longleftrightarrow> (\<forall>i<l. \<forall>j<m. \<forall>k<n. a ! i ! j ! k = 0 \<or> a ! i ! j ! k = 1)"
    using shape_is_length [OF assms] shape_is_row [OF assms] shape_is_cell [OF assms] by auto
  finally show ?thesis .
qed

lemma shape_eliminate:
  "shape_is l m n a \<Longrightarrow> shape_is l m n (eliminate cell a)"
  by (simp add: eliminate_def Let_def shape_assign_slice)

lemma entry_eliminate:
  assumes "shape_is l m n a" "i < l" "j < m" "d < n"
  shows "eliminate ((r, c), v) a ! i ! j ! d = a ! i ! j ! d \<or>
     eliminate ((r, c), v) a ! i ! j ! d = 0 \<or>
     (eliminate ((r, c), v) a ! i ! j ! d = 1 \<and> i = r \<and> j = c \<and> d = nat (v - 1))"
proof -
  note e = entry_assign_slice [where l = l and m = m and n = n, OF _ assms(2,3,4)]
  note sh = shape_assign_slice [where l = l and m = m and n = n]
  show ?thesis
    by (simp add: eliminate_def Let_def e sh assms(1))
qed

lemma fold_eliminate_le:
  assumes "shape_is 9 9 9 a" "indicator_cube a" "cube_le a b"
    and "\<forall>cell \<in> set cells. fst (fst cell) < 9 \<and> snd (fst cell) < 9 \<longrightarrow> nat (snd cell - 1) < 9 \<longrightarrow>
           b ! fst (fst cell) ! snd (fst cell) ! nat (snd cell - 1) = 1"
  shows "shape_is 9 9 9 (fold eliminate cells a) \<and> indicator_cube (fold eliminate cells a) \<and>
     cube_le (fold eliminate cells a) b"
  using assms
proof (induction cells arbitrary: a)
  case Nil
  then show ?case by simp
next
  case (Cons cell cells)
  obtain r c v where cell: "cell = ((r, c), v)" by (metis surj_pair)
  let ?a = "eliminate cell a"
  have sh: "shape_is 9 9 9 ?a" using Cons.prems(1) by (rule shape_eliminate)
  have b1: "r < 9 \<Longrightarrow> c < 9 \<Longrightarrow> nat (v - 1) < 9 \<Longrightarrow> b ! r ! c ! nat (v - 1) = 1"
    using Cons.prems(4) cell by simp
  have a01: "a ! i ! j ! k = 0 \<or> a ! i ! j ! k = 1" if "i < 9" "j < 9" "k < 9" for i j k
    using Cons.prems(2) that by (simp add: indicator_cube_iff [OF Cons.prems(1)])
  have ale: "a ! i ! j ! k \<le> b ! i ! j ! k" if "i < 9" "j < 9" "k < 9" for i j k
    using Cons.prems(3) that by (simp add: cube_le_iff)
  have e: "(?a ! i ! j ! k = 0 \<or> ?a ! i ! j ! k = 1) \<and> ?a ! i ! j ! k \<le> b ! i ! j ! k"
    if "i < 9" "j < 9" "k < 9" for i j k
    using entry_eliminate [OF Cons.prems(1) that, of r c v] a01 [OF that] ale [OF that] b1 that
    unfolding cell by auto
  have "indicator_cube ?a" "cube_le ?a b"
    using e by (simp_all add: indicator_cube_iff [OF sh] cube_le_iff)
  with sh Cons.prems(4) show ?case
    using Cons.IH [of ?a] by simp
qed

lemma known_cells_set:
  assumes "cell \<in> set (known_cells p)"
  shows "\<exists>i j. cell = ((i, j), p ! i ! j) \<and> i < length p \<and> j < length (p ! i) \<and> p ! i ! j \<noteq> 0"
  using assms unfolding known_cells_def map_idx_eq_map
  by (auto split: if_splits)

lemma length_puzzle_of_options: "length (puzzle_of_options a) = length a"
  by (simp add: puzzle_of_options_def)

lemma puzzle_of_options_nth:
  "i < length a \<Longrightarrow> j < length (a ! i) \<Longrightarrow>
     length (puzzle_of_options a ! i) = length (a ! i) \<and>
     puzzle_of_options a ! i ! j =
       (if sum_list (a ! i ! j) \<noteq> 1 then 0 else int (argmax (a ! i ! j)) + 1)"
  by (simp add: puzzle_of_options_def)

lemma indicator_cell:
  assumes "shape_is l m n a" "indicator_cube a" "i < l" "j < m"
  shows "list_all (\<lambda>x. x = 0 \<or> x = 1) (a ! i ! j)"
  using assms shape_is_length [OF assms(1)] shape_is_row [OF assms(1,3)]
  by (simp add: indicator_cube_def list_all_length)

lemma known_cell_bit:
  assumes "shape_is 9 9 9 a" "indicator_cube a" "cell \<in> set (known_cells (puzzle_of_options a))"
  shows "fst (fst cell) < 9 \<and> snd (fst cell) < 9 \<and> nat (snd cell - 1) < 9 \<and>
     a ! fst (fst cell) ! snd (fst cell) ! nat (snd cell - 1) = 1"
proof -
  from known_cells_set [OF assms(3)] obtain i j where c: "cell = ((i, j), puzzle_of_options a ! i ! j)"
    and i: "i < length (puzzle_of_options a)" and j: "j < length (puzzle_of_options a ! i)"
    and nz: "puzzle_of_options a ! i ! j \<noteq> 0"
    by blast
  have i9: "i < 9" using i shape_is_length [OF assms(1)] by (simp add: length_puzzle_of_options)
  have j9: "j < 9"
    using j i9 shape_is_length [OF assms(1)] shape_is_row [OF assms(1) i9]
      puzzle_of_options_nth [of i a 0] by simp
  have p: "puzzle_of_options a ! i ! j =
      (if sum_list (a ! i ! j) \<noteq> 1 then 0 else int (argmax (a ! i ! j)) + 1)"
    using i9 j9 shape_is_length [OF assms(1)] shape_is_row [OF assms(1) i9]
      puzzle_of_options_nth [of i a j] by simp
  with nz have s: "sum_list (a ! i ! j) = 1" and v: "puzzle_of_options a ! i ! j = int (argmax (a ! i ! j)) + 1"
    by (auto split: if_splits)
  note oh = one_hot_cell [OF indicator_cell [OF assms(1,2) i9 j9] s]
  have l: "length (a ! i ! j) = 9" using shape_is_cell [OF assms(1) i9 j9] .
  have "a ! i ! j ! argmax (a ! i ! j) = 1"
    using oh(1) by (subst oh(2)) simp
  then show ?thesis using c i9 j9 v oh(1) l by simp
qed

lemma propagation_pass_le:
  assumes "propagation_inv p a"
  shows "propagation_inv (puzzle_of_options (propagation_pass p a)) (propagation_pass p a)"
    and "cube_le (propagation_pass p a) a"
proof -
  from assms have sh: "shape_is 9 9 9 a" and ind: "indicator_cube a"
    and p: "p = puzzle_of_options a"
    by (simp_all add: propagation_inv_def)
  have "cube_le a a" by (simp add: cube_le_iff)
  moreover have "\<forall>cell \<in> set (known_cells p). fst (fst cell) < 9 \<and> snd (fst cell) < 9 \<longrightarrow>
      nat (snd cell - 1) < 9 \<longrightarrow> a ! fst (fst cell) ! snd (fst cell) ! nat (snd cell - 1) = 1"
    using known_cell_bit [OF sh ind] unfolding p by blast
  ultimately have "shape_is 9 9 9 (propagation_pass p a) \<and> indicator_cube (propagation_pass p a) \<and>
     cube_le (propagation_pass p a) a"
    unfolding propagation_pass_def using sh ind by (intro fold_eliminate_le)
  then show "propagation_inv (puzzle_of_options (propagation_pass p a)) (propagation_pass p a)"
    and "cube_le (propagation_pass p a) a"
    by (simp_all add: propagation_inv_def)
qed

lemma sum_list_nth_mono:
  "length xs = length ys \<Longrightarrow> \<forall>k<length xs. xs ! k \<le> (ys ! k :: int) \<Longrightarrow> sum_list xs \<le> sum_list ys"
proof (induction xs ys rule: list_induct2)
  case Nil
  then show ?case by simp
next
  case (Cons x xs y ys)
  have "x \<le> y" using Cons.prems by auto
  moreover have "\<forall>k<length xs. xs ! k \<le> ys ! k" using Cons.prems by auto
  ultimately show ?case using Cons.IH by simp
qed

lemma digits_set_sum:
  assumes "shape_is l m n a" "indicator_cube a" "i < l" "j < m"
  shows "int (digits_set (a ! i ! j)) = sum_list (a ! i ! j)"
  using sum_list_indicator [OF indicator_cell [OF assms]] by (simp add: digits_set_def)

lemma cube_le_digits_set:
  assumes "shape_is 9 9 9 a" "indicator_cube a" "shape_is 9 9 9 b" "indicator_cube b"
    "cube_le a b" "i < 9" "j < 9"
  shows "digits_set (a ! i ! j) \<le> digits_set (b ! i ! j)"
proof -
  have "sum_list (a ! i ! j) \<le> sum_list (b ! i ! j)"
    using assms(5,6,7) shape_is_cell [OF assms(1,6,7)] shape_is_cell [OF assms(3,6,7)]
    by (intro sum_list_nth_mono) (simp_all add: cube_le_iff)
  then show ?thesis
    using digits_set_sum [OF assms(1,2,6,7)] digits_set_sum [OF assms(3,4,6,7)] by simp
qed

lemma sum_list_one_hot: "k < m \<Longrightarrow> sum_list ((replicate m (0::int))[k := 1]) = 1"
proof (induction m arbitrary: k)
  case 0
  then show ?case by simp
next
  case (Suc m)
  then show ?case by (cases k) (auto simp: sum_list_replicate)
qed

lemma cell_of_digit_facts:
  assumes "0 \<le> v" "v \<le> 9"
  shows "length (cell_of_digit v) = 9" "list_all (\<lambda>x. x = 0 \<or> x = 1) (cell_of_digit v)"
    "(if sum_list (cell_of_digit v) \<noteq> 1 then 0 else int (argmax (cell_of_digit v)) + 1) = v"
proof -
  show "length (cell_of_digit v) = 9" by (simp add: cell_of_digit_def)
  show "list_all (\<lambda>x. x = 0 \<or> x = 1) (cell_of_digit v)"
    unfolding cell_of_digit_def list_all_iff
    by (auto dest!: subsetD [OF set_update_subset_insert])
  show "(if sum_list (cell_of_digit v) \<noteq> 1 then 0 else int (argmax (cell_of_digit v)) + 1) = v"
  proof (cases "v = 0")
    case True
    then show ?thesis by (simp add: cell_of_digit_def sum_list_replicate)
  next
    case False
    with assms have k: "nat (v - 1) < 9" by simp
    then have "sum_list ((replicate 9 (0::int))[nat (v - 1) := 1]) = 1"
      by (rule sum_list_one_hot)
    then show ?thesis
      using False assms argmax_one_hot [OF k] by (simp add: cell_of_digit_def)
  qed
qed

lemma grid_of_range:
  assumes "list_all is_digit s" "row \<in> set (grid_of s)" "v \<in> set row"
  shows "0 \<le> v \<and> v \<le> 9"
proof -
  from assms(2,3) have "v \<in> set (map digit_value s)"
    by (auto simp: grid_of_def dest!: in_set_takeD in_set_dropD)
  then show ?thesis using assms(1) digit_value_range by (auto simp: list_all_iff)
qed

lemma string_to_np_puzzle_inv:
  assumes "string_to_np_puzzle s = Inr (p, a)"
  shows "propagation_inv p a"
proof -
  have ok: "length s = 81" "list_all is_digit s"
    using assms string_to_np_puzzle_error [of s] by auto
  from string_to_np_puzzle_ok [OF ok] assms
  have p: "p = grid_of s" and a: "a = map (map cell_of_digit) p" by simp_all
  have rng: "0 \<le> v \<and> v \<le> 9" if "row \<in> set p" "v \<in> set row" for row v
    using grid_of_range [OF ok(2)] that p by blast
  have lp: "length p = 9" "\<And>row. row \<in> set p \<Longrightarrow> length row = 9"
    using p length_grid_of length_grid_of_row [OF ok(1)] by simp_all
  have sh: "shape_is 9 9 9 a"
    unfolding shape_is_def a using lp rng by (auto simp: cell_of_digit_facts(1))
  have "a ! i ! j ! k = 0 \<or> a ! i ! j ! k = 1" if "i < 9" "j < 9" "k < 9" for i j k
  proof -
    have r: "p ! i \<in> set p" using that(1) lp(1) by simp
    then have v: "p ! i ! j \<in> set (p ! i)" using that(2) lp(2) by simp
    have "a ! i ! j = cell_of_digit (p ! i ! j)"
      using that lp(1) lp(2) [OF r] by (simp add: a)
    then show ?thesis
      using cell_of_digit_facts(1,2) [of "p ! i ! j"] rng [OF r v] that(3)
      by (simp add: list_all_length)
  qed
  then have ind: "indicator_cube a"
    by (simp add: indicator_cube_iff [OF sh])
  have "puzzle_of_options a = map (map (\<lambda>v. v)) p"
    unfolding puzzle_of_options_def a map_map o_def
    by (intro map_cong refl) (use rng in \<open>simp add: cell_of_digit_facts(3)\<close>)
  then show ?thesis using sh ind by (simp add: propagation_inv_def)
qed

lemma total_options_nonneg:
  assumes "shape_is 9 9 9 a" "indicator_cube a"
  shows "0 \<le> total_options a"
  unfolding total_options_def
proof (rule sum_nonneg)
  fix x :: "nat \<times> nat \<times> nat"
  assume "x \<in> {..<9} \<times> {..<9} \<times> {..<9}"
  then have "fst x < 9" "fst (snd x) < 9" "snd (snd x) < 9" by auto
  then have "a ! fst x ! fst (snd x) ! snd (snd x) = 0 \<or> a ! fst x ! fst (snd x) ! snd (snd x) = 1"
    using assms(2) by (simp add: indicator_cube_iff [OF assms(1)])
  then show "0 \<le> a ! fst x ! fst (snd x) ! snd (snd x)" by auto
qed

lemma total_options_less:
  assumes "shape_is 9 9 9 a" "shape_is 9 9 9 b" "cube_le a b" "a \<noteq> b"
  shows "total_options a < total_options b"
proof -
  have "\<exists>i<9. \<exists>j<9. \<exists>k<9. a ! i ! j ! k \<noteq> b ! i ! j ! k"
    using cube_eqI [OF assms(1,2)] assms(4) by blast
  then obtain i j k where "i < 9" "j < 9" "k < 9" "a ! i ! j ! k < b ! i ! j ! k"
    using assms(3) by (fastforce simp: cube_le_iff)
  then have "\<exists>x \<in> {..<9} \<times> {..<9} \<times> {..<9}.
      a ! fst x ! fst (snd x) ! snd (snd x) < b ! fst x ! fst (snd x) ! snd (snd x)"
    by (intro bexI [of _ "(i, j, k)"]) simp_all
  moreover have "\<forall>x \<in> {..<9} \<times> {..<9} \<times> {..<9}.
      a ! fst x ! fst (snd x) ! snd (snd x) \<le> b ! fst x ! fst (snd x) ! snd (snd x)"
    using assms(3) by (auto simp: cube_le_iff)
  ultimately show ?thesis
    unfolding total_options_def by (intro sum_strict_mono_ex1) simp_all
qed

lemma propagate_terminates:
  "propagation_inv p a \<Longrightarrow> \<exists>r. propagate p a = Some r"
proof (induction a arbitrary: p rule: measure_induct_rule [where f = "\<lambda>a. nat (total_options a)"])
  case (less a)
  let ?a = "propagation_pass p a"
  let ?p = "puzzle_of_options ?a"
  note pass = propagation_pass_le [OF less.prems]
  show ?case
  proof (cases "?p = p \<or> sum_list (map sum_list ?p) = 9 * 45")
    case True
    then show ?thesis
      by (subst propagate.simps) (auto simp: Let_def)
  next
    case False
    from less.prems have sh: "shape_is 9 9 9 a" and p: "p = puzzle_of_options a"
      by (simp_all add: propagation_inv_def)
    from pass(1) have sh': "shape_is 9 9 9 ?a" and ind': "indicator_cube ?a"
      by (simp_all add: propagation_inv_def)
    have "?a \<noteq> a" using False p by auto
    from total_options_less [OF sh' sh pass(2) this] total_options_nonneg [OF sh' ind']
    have "nat (total_options ?a) < nat (total_options a)" by simp
    from less.IH [OF this pass(1)] obtain r where "propagate ?p ?a = Some r" ..
    then show ?thesis
      using False by (subst propagate.simps) (simp add: Let_def)
  qed
qed

lemma propagate_exit_inv:
  assumes "propagate p a = Some r"
  shows "propagation_inv p a \<longrightarrow>
    (case r of Break p' a' \<Rightarrow> propagation_inv p' a' | Return str \<Rightarrow> True)"
proof (rule propagate.raw_induct [where P = "\<lambda>p a r. propagation_inv p a \<longrightarrow>
    (case r of Break p' a' \<Rightarrow> propagation_inv p' a' | Return str \<Rightarrow> True)", OF _ assms])
  fix f p a r
  assume "1": "\<And>p a r. f p a = Some r \<Longrightarrow> propagation_inv p a \<longrightarrow>
      (case r of Break p' a' \<Rightarrow> propagation_inv p' a' | Return str \<Rightarrow> True)"
    "(let prev_puzzle_2d = p; options_3d = propagation_pass p a;
          puzzle_2d = puzzle_of_options options_3d
      in if puzzle_2d = prev_puzzle_2d then Some (Break puzzle_2d options_3d)
         else if sum_list (map sum_list puzzle_2d) = 9 * 45
         then Some (Return (np_puzzle_to_string options_3d))
         else f puzzle_2d options_3d) = Some r"
  let ?a = "propagation_pass p a"
  let ?p = "puzzle_of_options ?a"
  show "propagation_inv p a \<longrightarrow>
    (case r of Break p' a' \<Rightarrow> propagation_inv p' a' | Return str \<Rightarrow> True)"
  proof
    assume inv: "propagation_inv p a"
    note pass = propagation_pass_le [OF inv]
    show "case r of Break p' a' \<Rightarrow> propagation_inv p' a' | Return str \<Rightarrow> True"
    proof (cases "?p = p")
      case True
      with "1"(2) have "r = Break ?p ?a" by (simp add: Let_def)
      with pass(1) show ?thesis by simp
    next
      case False
      show ?thesis
      proof (cases "sum_list (map sum_list ?p) = 9 * 45")
        case True
        with False "1"(2) have "r = Return (np_puzzle_to_string ?a)" by (simp add: Let_def)
        then show ?thesis by simp
      next
        case nosum: False
        with False "1"(2) have "f ?p ?a = Some r" by (simp add: Let_def)
        from "1"(1) [OF this] pass(1) show ?thesis by simp
      qed
    qed
  qed
qed

lemma propagate_Break:
  "propagate p a = Some (Break p' a') \<Longrightarrow> propagation_inv p a \<Longrightarrow> propagation_inv p' a'"
  using propagate_exit_inv [of p a "Break p' a'"] by simp

text \<open>The loop ends for every string that parses, so that \<open>solve\<close> always has a result.\<close>

lemma solve_returns: "\<exists>r. solve s m = Some r"
proof (cases "string_to_np_puzzle s")
  case (Inl e)
  then show ?thesis by (simp add: solve_def)
next
  case (Inr pa)
  obtain p a where pa: "pa = (p, a)" by (cases pa)
  from propagate_terminates [OF string_to_np_puzzle_inv] Inr pa
  obtain r where "propagate p a = Some r" by blast
  then show ?thesis using Inr pa by (cases r) (simp_all add: solve_def)
qed

section \<open>After the loop: the count, the limit and the search\<close>

lemma solve_after_loop:
  assumes "string_to_np_puzzle s = Inr (p, a)" "propagate p a = Some (Break p' a')"
  shows "solve s m = Some (solve_search p' a' m)"
  using assms by (simp add: solve_def)

lemma loop_exit_of_Break:
  assumes "loop_exit_of s = Some (Break p' a')"
  shows "\<exists>p a. string_to_np_puzzle s = Inr (p, a) \<and> propagate p a = Some (Break p' a')"
  using assms by (auto simp: loop_exit_of_def split: sum.splits)





lemma contradictory_grid_exit:
  "case loop_exit_of contradictory_grid of
     Some (Break p' a') \<Rightarrow> digits_set (a' ! 0 ! 0) = 0
   | _ \<Rightarrow> False"
  by code_simp



lemma two_clue_grid_exit:
  "case loop_exit_of two_clue_grid of
     Some (Break p' a') \<Rightarrow>
       num_possibilities a' = 0 \<and> exact_possibilities a' = 7 ^ 2 * 8 ^ 36 * 9 ^ 41
   | _ \<Rightarrow> False"
  by code_simp

lemma case_exitE:
  assumes "case x of Some (Break p' a') \<Rightarrow> P p' a' | _ \<Rightarrow> False"
  obtains p' a' where "x = Some (Break p' a')" "P p' a'"
  using assms by (auto split: option.splits loop_exit.splits)





text \<open>
  Claim C10 at a failing input. For the grid with two clues the exact count is
  \<open>7\<^sup>2 * 8\<^sup>3\<^sup>6 * 9\<^sup>4\<^sup>1\<close>, a multiple of \<open>2\<^sup>6\<^sup>4\<close>, so that the 64-bit product is 0: neither
  negative nor at least the limit of 10,000,000, and \<open>solve\<close> enters the search with a count
  that is not the number of combinations.
\<close>

theorem wrapped_count_enters_search:
  "count_after_propagation two_clue_grid = Some 0 \<and>
   exact_count_after_propagation two_clue_grid = Some (7 ^ 2 * 8 ^ 36 * 9 ^ 41) \<and>
   solve two_clue_grid 10000000 = search_after_propagation two_clue_grid"
proof -
  from two_clue_grid_exit obtain p' a'
    where e: "loop_exit_of two_clue_grid = Some (Break p' a')"
      and n: "num_possibilities a' = 0 \<and> exact_possibilities a' = 7 ^ 2 * 8 ^ 36 * 9 ^ 41"
    by (rule case_exitE)
  from loop_exit_of_Break [OF e] obtain p a
    where pa: "string_to_np_puzzle two_clue_grid = Inr (p, a)" "propagate p a = Some (Break p' a')"
    by blast
  from solve_after_loop [OF pa, of 10000000] n e show ?thesis
    by (simp add: solve_search_def count_after_propagation_def exact_count_after_propagation_def
        search_after_propagation_def)
qed

text \<open>
  Claim C3 at a failing input. The grid with two 5s at the start of its first row has no
  solution; its first cell is left without a candidate, the product of the candidates is
  empty, and instead of returning \<^verbatim>\<open>None\<close> the search raises \<^verbatim>\<open>ValueError\<close> while it
  collects the candidates. (When every unknown cell has a candidate left, an exhausted
  search does return \<^verbatim>\<open>None\<close>: see \<open>search_first_legal\<close> below.)
\<close>

theorem empty_cell_raises:
  "count_after_propagation two_fives_grid = Some 0 \<and>
   search_after_propagation two_fives_grid = Some (Inl ValueError) \<and>
   solve two_fives_grid 10000000 = Some (Inl ValueError)"
  by code_simp

section \<open>The states of the search\<close>

lemma shape_set_entry: "shape_is l m n a \<Longrightarrow> shape_is l m n (set_entry x v a)"
  by (cases x) (simp add: set_entry_def shape_assign_slice)

lemma entry_set_entry:
  assumes "shape_is l m n a" "i < l" "j < m" "k < n"
  shows "set_entry x v a ! i ! j ! k = (if (i, j, k) = x then v else a ! i ! j ! k)"
  using entry_assign_slice [OF assms] by (cases x) (auto simp: set_entry_def)

lemma shape_set_up_first: "shape_is l m n a \<Longrightarrow> shape_is l m n (set_up_first y a)"
  by (cases y, cases "snd y") (simp add: set_up_first_def shape_assign_slice shape_set_entry)

lemma entry_set_up_first:
  assumes "shape_is l m n a" "i < l" "j < m" "k < n"
  shows "set_up_first (q, x) a ! i ! j ! k =
    (if (i, j) = cell_of x then (if (i, j, k) = x then 1 else 0) else a ! i ! j ! k)"
proof -
  obtain i0 j0 d0 where x: "x = (i0, j0, d0)" by (cases x) auto
  show ?thesis
    unfolding x set_up_first_def
    using entry_set_entry [OF shape_assign_slice [OF assms(1)] assms(2,3,4)]
      entry_assign_slice [OF assms]
    by (auto simp: cell_of_def)
qed

lemma shape_assignment: "shape_is l m n a \<Longrightarrow> shape_is l m n (assignment comb a)"
  unfolding assignment_def
  by (induction comb arbitrary: a) (simp_all add: shape_set_up_first)

lemma entry_assignment:
  assumes "shape_is l m n a" "i < l" "j < m" "k < n" "distinct (map cell_of comb)"
  shows "assignment comb a ! i ! j ! k =
    (if (i, j) \<in> cell_of ` set comb then (if (i, j, k) \<in> set comb then 1 else 0)
     else a ! i ! j ! k)"
  using assms(1,5)
proof (induction comb arbitrary: a)
  case Nil
  then show ?case by (simp add: assignment_def)
next
  case (Cons x comb)
  let ?a = "set_up_first (None, x) a"
  have sh: "shape_is l m n ?a" using Cons.prems(1) by (rule shape_set_up_first)
  have d: "distinct (map cell_of comb)" and nx: "cell_of x \<notin> cell_of ` set comb"
    using Cons.prems(2) by simp_all
  have "assignment (x # comb) a = assignment comb ?a"
    by (simp add: assignment_def)
  then have "assignment (x # comb) a ! i ! j ! k =
    (if (i, j) \<in> cell_of ` set comb then (if (i, j, k) \<in> set comb then 1 else 0)
     else ?a ! i ! j ! k)"
    using Cons.IH [OF sh d] by simp
  also have "\<dots> = (if (i, j) \<in> cell_of ` set (x # comb)
      then (if (i, j, k) \<in> set (x # comb) then 1 else 0) else a ! i ! j ! k)"
  proof (cases "(i, j) \<in> cell_of ` set comb")
    case True
    then have "(i, j) \<noteq> cell_of x" using nx by auto
    then have "(i, j, k) \<noteq> x" by (auto simp: cell_of_def)
    with True show ?thesis by simp
  next
    case False
    then have "(i, j, k) \<notin> set comb" by (force simp: cell_of_def)
    with False show ?thesis
      using entry_set_up_first [OF Cons.prems(1) assms(2,3,4), of None x]
      by (auto simp: cell_of_def)
  qed
  finally show ?case .
qed

lemma change_assignment:
  assumes sh: "shape_is l m n a" and cp: "cell_of c = cell_of p"
    and d: "distinct (map cell_of (pre @ p # ps))"
  shows "set_entry c 1 (set_entry p 0 (assignment (pre @ p # ps) a)) = assignment (pre @ c # ps) a"
proof (rule cube_eqI [where l = l and m = m and n = n])
  show "shape_is l m n (set_entry c 1 (set_entry p 0 (assignment (pre @ p # ps) a)))"
    by (intro shape_set_entry shape_assignment sh)
  show "shape_is l m n (assignment (pre @ c # ps) a)"
    by (intro shape_assignment sh)
  fix i j k
  assume r: "i < l" "j < m" "k < n"
  have d': "distinct (map cell_of (pre @ c # ps))" using d cp by simp
  have np: "cell_of p \<notin> cell_of ` set pre" "cell_of p \<notin> cell_of ` set ps"
    using d by auto
  have cells: "cell_of ` set (pre @ c # ps) = cell_of ` set (pre @ p # ps)"
    using cp by simp
  have lhs: "set_entry c 1 (set_entry p 0 (assignment (pre @ p # ps) a)) ! i ! j ! k =
      (if (i, j, k) = c then 1 else if (i, j, k) = p then 0
       else assignment (pre @ p # ps) a ! i ! j ! k)"
    using entry_set_entry [OF shape_set_entry [OF shape_assignment [OF sh]] r]
      entry_set_entry [OF shape_assignment [OF sh] r]
    by simp
  note rhs = entry_assignment [OF sh r d']
  show "set_entry c 1 (set_entry p 0 (assignment (pre @ p # ps) a)) ! i ! j ! k =
      assignment (pre @ c # ps) a ! i ! j ! k"
  proof (cases "(i, j, k) = c")
    case True
    then have "(i, j) \<in> cell_of ` set (pre @ c # ps)" "(i, j, k) \<in> set (pre @ c # ps)"
      by (auto simp: cell_of_def image_iff)
    then show ?thesis using True lhs rhs by simp
  next
    case nc: False
    show ?thesis
    proof (cases "(i, j, k) = p")
      case True
      have "p \<notin> set pre" "p \<notin> set ps" using np by blast+
      then have "(i, j, k) \<notin> set (pre @ c # ps)" using True nc by auto
      moreover have "(i, j) \<in> cell_of ` set (pre @ c # ps)"
        unfolding cells using True by (auto simp: cell_of_def image_iff)
      ultimately show ?thesis using True nc lhs rhs by simp
    next
      case False
      then have mem: "((i, j, k) \<in> set (pre @ c # ps)) = ((i, j, k) \<in> set (pre @ p # ps))"
        using nc by auto
      show ?thesis
        by (simp only: lhs rhs entry_assignment [OF sh r d] cells mem nc False if_False)
    qed
  qed
qed

lemma apply_changes_pairs:
  assumes "shape_is l m n a" "map cell_of ps = map cell_of cs"
    "distinct (map cell_of (pre @ ps))"
  shows "apply_changes (map (\<lambda>(c, p). (Some p, c)) (filter (\<lambda>(c, p). c \<noteq> p) (zip cs ps)))
      (assignment (pre @ ps) a) = Inr (assignment (pre @ cs) a)"
proof -
  have "length ps = length cs" using assms(2) by (rule map_eq_imp_length_eq)
  then show ?thesis using assms(2,3)
  proof (induction ps cs arbitrary: pre rule: list_induct2)
    case Nil
    then show ?case by simp
  next
    case (Cons p ps c cs)
    from Cons.prems(1) have cp: "cell_of c = cell_of p" and tl: "map cell_of ps = map cell_of cs"
      by simp_all
    have d1: "distinct (map cell_of ((pre @ [c]) @ ps))"
      using Cons.prems(2) cp by simp
    note ih = Cons.IH [OF tl d1]
    show ?case
    proof (cases "c = p")
      case True
      then show ?thesis using ih by simp
    next
      case False
      then show ?thesis
        using ih change_assignment [OF assms(1) cp Cons.prems(2)]
        by (simp add: apply_change_def)
    qed
  qed
qed

lemma take_later_yields: "take n (later_yields comb rest) = later_yields comb (take n rest)"
proof (induction rest arbitrary: comb n)
  case Nil
  then show ?case by simp
next
  case (Cons c rest)
  then show ?case by (cases n) simp_all
qed

lemma apply_yields_later_yields:
  assumes "shape_is l m n a" "\<forall>x \<in> set (comb # rest). map cell_of x = cells" "distinct cells"
  shows "apply_yields (later_yields comb rest) (assignment comb a) =
    Inr (assignment (last (comb # rest)) a)"
  using assms(2)
proof (induction rest arbitrary: comb)
  case Nil
  then show ?case by simp
next
  case (Cons c rest)
  have "map cell_of comb = map cell_of c" "distinct (map cell_of ([] @ comb))"
    using Cons.prems assms(3) by simp_all
  from apply_changes_pairs [OF assms(1) this]
  have "apply_changes (map (\<lambda>(c, p). (Some p, c)) (filter (\<lambda>(c, p). c \<noteq> p) (zip c comb)))
      (assignment comb a) = Inr (assignment c a)"
    by simp
  then show ?case using Cons.IH [of c] Cons.prems by simp
qed

lemma apply_yields_take:
  assumes "shape_is l m n a" "\<forall>x \<in> set (comb # rest). map cell_of x = cells" "distinct cells"
    "k \<le> length rest"
  shows "apply_yields (take k (later_yields comb rest)) (assignment comb a) =
    Inr (assignment ((comb # rest) ! k) a)"
proof -
  have "\<forall>x \<in> set (comb # take k rest). map cell_of x = cells"
    using assms(2) by (auto dest: in_set_takeD)
  from apply_yields_later_yields [OF assms(1) this assms(3)]
  have "apply_yields (take k (later_yields comb rest)) (assignment comb a) =
    Inr (assignment (last (comb # take k rest)) a)"
    by (simp add: take_later_yields)
  moreover have "last (comb # take k rest) = (comb # rest) ! k"
  proof (cases k)
    case 0
    then show ?thesis by simp
  next
    case (Suc k')
    then have "take k rest \<noteq> []" using assms(4) by auto
    then have "last (comb # take k rest) = take k rest ! (length (take k rest) - 1)"
      by (simp add: last_conv_nth)
    then show ?thesis using Suc assms(4) by simp
  qed
  ultimately show ?thesis by simp
qed

lemma collect_Inr: "collect xs = Inr ys \<Longrightarrow> xs = map Inr ys"
proof (induction xs arbitrary: ys)
  case Nil
  then show ?case by simp
next
  case (Cons x xs)
  then show ?case by (auto split: sum.splits)
qed

lemma concat_map_if:
  "concat (map (\<lambda>x. if P x then [f x] else []) xs) = map f (filter P xs)"
  by (induction xs) auto

lemma unknown_cells_eq:
  "unknown_cells p =
     concat (map (\<lambda>i. map (Pair i) (filter (\<lambda>j. p ! i ! j = 0) [0..<length (p ! i)])) [0..<length p])"
  unfolding unknown_cells_def map_idx_eq_map
  by (simp add: concat_map_if)

lemma distinct_concat_Pair:
  "distinct xs \<Longrightarrow> (\<And>i. distinct (g i)) \<Longrightarrow> distinct (concat (map (\<lambda>i. map (Pair i) (g i)) xs))"
  by (induction xs) (auto simp: distinct_map inj_on_def)

lemma distinct_unknown_cells: "distinct (unknown_cells p)"
  unfolding unknown_cells_eq by (rule distinct_concat_Pair) simp_all

lemma unknown_cells_set:
  "(i, j) \<in> set (unknown_cells p) \<longleftrightarrow> i < length p \<and> j < length (p ! i) \<and> p ! i ! j = 0"
  unfolding unknown_cells_eq by auto

lemma options_idx_nth:
  assumes "options_idx p a = Inr idxs"
  shows "length idxs = length (unknown_cells p)"
    and "n < length idxs \<Longrightarrow>
      idxs ! n = map (\<lambda>d. (fst (unknown_cells p ! n), snd (unknown_cells p ! n), d))
        (np_where_eq1 (a ! fst (unknown_cells p ! n) ! snd (unknown_cells p ! n)))"
    and "n < length idxs \<Longrightarrow> idxs ! n \<noteq> []"
proof -
  let ?f = "\<lambda>(i, j). case np_nditer (np_where_eq1 (a ! i ! j)) of
          Inl e \<Rightarrow> Inl e | Inr ds \<Rightarrow> Inr (map (\<lambda>d. (i, j, d)) ds)"
  have m: "map ?f (unknown_cells p) = map Inr idxs"
    using assms collect_Inr unfolding options_idx_def by blast
  then show len: "length idxs = length (unknown_cells p)"
    using map_eq_imp_length_eq by fastforce
  have nth: "?f (unknown_cells p ! n) = Inr (idxs ! n)" if "n < length idxs" for n
    using that len nth_map [of n "unknown_cells p" ?f] nth_map [of n idxs Inr] m by simp
  show "idxs ! n = map (\<lambda>d. (fst (unknown_cells p ! n), snd (unknown_cells p ! n), d))
        (np_where_eq1 (a ! fst (unknown_cells p ! n) ! snd (unknown_cells p ! n)))"
    if "n < length idxs"
    using nth [OF that]
    by (auto simp: np_nditer_def split_beta split: if_splits)
  show "idxs ! n \<noteq> []" if "n < length idxs"
    using nth [OF that]
    by (auto simp: np_nditer_def split_beta split: if_splits)
qed

lemma options_idx_comb:
  assumes "options_idx p a = Inr idxs" "comb \<in> set (itertools_product idxs)"
  shows "map cell_of comb = unknown_cells p"
    and "\<forall>x \<in> set comb. snd (snd x) < length (a ! fst x ! fst (snd x)) \<and>
           a ! fst x ! fst (snd x) ! snd (snd x) = 1"
proof -
  note oi = options_idx_nth [OF assms(1)]
  from assms(2) have la: "list_all2 (\<lambda>x xs. x \<in> set xs) comb idxs"
    by (simp add: in_itertools_product)
  then have len: "length comb = length idxs" by (rule list_all2_lengthD)
  have el: "cell_of (comb ! n) = unknown_cells p ! n \<and>
      snd (snd (comb ! n)) < length (a ! fst (comb ! n) ! fst (snd (comb ! n))) \<and>
      a ! fst (comb ! n) ! fst (snd (comb ! n)) ! snd (snd (comb ! n)) = 1"
    if "n < length comb" for n
  proof -
    have "comb ! n \<in> set (idxs ! n)"
      using la that by (simp add: list_all2_conv_all_nth)
    then show ?thesis
      unfolding oi(2) [OF that [unfolded len]]
      by (auto simp: cell_of_def np_where_eq1_def)
  qed
  show "map cell_of comb = unknown_cells p"
    by (rule nth_equalityI) (use el len oi(1) in simp_all)
  show "\<forall>x \<in> set comb. snd (snd x) < length (a ! fst x ! fst (snd x)) \<and>
           a ! fst x ! fst (snd x) ! snd (snd x) = 1"
  proof
    fix x assume "x \<in> set comb"
    then obtain n where "n < length comb" "comb ! n = x" by (auto simp: in_set_conv_nth)
    with el [of n] show "snd (snd x) < length (a ! fst x ! fst (snd x)) \<and>
           a ! fst x ! fst (snd x) ! snd (snd x) = 1" by simp
  qed
qed

lemma one_hot_list: "length xs = m \<Longrightarrow> d < m \<Longrightarrow> \<forall>k<m. xs ! k = (if k = d then 1 else 0) \<Longrightarrow>
    xs = (replicate m (0::int))[d := 1]"
  by (rule nth_equalityI) (auto simp: nth_list_update)

lemma assignment_narrows:
  assumes inv: "propagation_inv p a" and oi: "options_idx p a = Inr idxs"
    and c: "comb \<in> set (itertools_product idxs)"
  shows "one_hot_cube (assignment comb a)" "cube_le (assignment comb a) a"
proof -
  from inv have sh: "shape_is 9 9 9 a" and ind: "indicator_cube a"
    and p: "p = puzzle_of_options a"
    by (simp_all add: propagation_inv_def)
  note cells = options_idx_comb(1) [OF oi c]
  note ones = options_idx_comb(2) [OF oi c]
  have dist: "distinct (map cell_of comb)"
    unfolding cells by (rule distinct_unknown_cells)
  have cset: "cell_of ` set comb = set (unknown_cells p)"
    using cells by (metis set_map)
  have inj: "x = y" if "x \<in> set comb" "y \<in> set comb" "cell_of x = cell_of y" for x y
    using dist that by (auto simp: distinct_map inj_on_def)
  let ?b = "assignment comb a"
  have shb: "shape_is 9 9 9 ?b" using sh by (rule shape_assignment)
  have a01: "a ! i ! j ! k = 0 \<or> a ! i ! j ! k = 1" if "i < 9" "j < 9" "k < 9" for i j k
    using ind that by (simp add: indicator_cube_iff [OF sh])
  have e: "?b ! i ! j ! k =
      (if (i, j) \<in> set (unknown_cells p) then (if (i, j, k) \<in> set comb then 1 else 0)
       else a ! i ! j ! k)" if "i < 9" "j < 9" "k < 9" for i j k
    using entry_assignment [OF sh that dist] by (simp only: cset)
  have indb: "indicator_cube ?b"
    unfolding indicator_cube_iff [OF shb] using e a01 by auto
  have le: "?b ! i ! j ! k \<le> a ! i ! j ! k" if "i < 9" "j < 9" "k < 9" for i j k
  proof (cases "(i, j, k) \<in> set comb")
    case True
    with ones have "a ! i ! j ! k = 1" by fastforce
    then show ?thesis using e [OF that] a01 [OF that] by auto
  next
    case False
    then show ?thesis using e [OF that] a01 [OF that] by auto
  qed
  have sums: "sum_list (?b ! i ! j) = 1" if "i < 9" "j < 9" for i j
  proof (cases "(i, j) \<in> set (unknown_cells p)")
    case True
    then obtain x where x: "x \<in> set comb" "cell_of x = (i, j)"
      unfolding cset [symmetric] by auto
    obtain d where xd: "x = (i, j, d)" using x(2) by (cases x) (auto simp: cell_of_def)
    have d9: "d < 9" using ones x(1) xd shape_is_cell [OF sh that] by fastforce
    have "(i, j, k) \<in> set comb \<longleftrightarrow> k = d" for k
      using inj [OF _ x(1), of "(i, j, k)"] x xd by (auto simp: cell_of_def)
    then have "\<forall>k<9. ?b ! i ! j ! k = (if k = d then 1 else 0)"
      using e [OF that] True by simp
    from one_hot_list [OF shape_is_cell [OF shb that] d9 this] d9
    show ?thesis by (simp add: sum_list_one_hot)
  next
    case False
    have "?b ! i ! j = a ! i ! j"
      by (rule nth_equalityI)
        (use False e [OF that] shape_is_cell [OF shb that] shape_is_cell [OF sh that] in simp_all)
    moreover have "p ! i ! j \<noteq> 0"
      using False that shape_is_length [OF sh] shape_is_row [OF sh that(1)]
        puzzle_of_options_nth [of i a j]
      by (simp add: unknown_cells_set p length_puzzle_of_options)
    then have "sum_list (a ! i ! j) = 1"
      using that shape_is_length [OF sh] shape_is_row [OF sh that(1)]
        puzzle_of_options_nth [of i a j]
      by (auto simp: p split: if_splits)
    ultimately show ?thesis by simp
  qed
  show "one_hot_cube ?b"
    using shb indb sums by (simp add: one_hot_cube_def all_eq1_sum_axis2 [OF shb])
  show "cube_le ?b a"
    using le by (simp add: cube_le_iff)
qed

lemma cube_le_trans: "cube_le a b \<Longrightarrow> cube_le b c \<Longrightarrow> cube_le a c"
  unfolding cube_le_iff by (meson order_trans)

lemma propagate_exit_le:
  assumes "propagate p a = Some r"
  shows "propagation_inv p a \<longrightarrow>
    (case r of Break p' a' \<Rightarrow> cube_le a' a | Return str \<Rightarrow> True)"
proof (rule propagate.raw_induct [where P = "\<lambda>p a r. propagation_inv p a \<longrightarrow>
    (case r of Break p' a' \<Rightarrow> cube_le a' a | Return str \<Rightarrow> True)", OF _ assms])
  fix f p a r
  assume "1": "\<And>p a r. f p a = Some r \<Longrightarrow> propagation_inv p a \<longrightarrow>
      (case r of Break p' a' \<Rightarrow> cube_le a' a | Return str \<Rightarrow> True)"
    "(let prev_puzzle_2d = p; options_3d = propagation_pass p a;
          puzzle_2d = puzzle_of_options options_3d
      in if puzzle_2d = prev_puzzle_2d then Some (Break puzzle_2d options_3d)
         else if sum_list (map sum_list puzzle_2d) = 9 * 45
         then Some (Return (np_puzzle_to_string options_3d))
         else f puzzle_2d options_3d) = Some r"
  let ?a = "propagation_pass p a"
  let ?p = "puzzle_of_options ?a"
  show "propagation_inv p a \<longrightarrow>
    (case r of Break p' a' \<Rightarrow> cube_le a' a | Return str \<Rightarrow> True)"
  proof
    assume inv: "propagation_inv p a"
    note pass = propagation_pass_le [OF inv]
    show "case r of Break p' a' \<Rightarrow> cube_le a' a | Return str \<Rightarrow> True"
    proof (cases "?p = p")
      case True
      with "1"(2) have "r = Break ?p ?a" by (simp add: Let_def)
      with pass(2) show ?thesis by simp
    next
      case False
      show ?thesis
      proof (cases "sum_list (map sum_list ?p) = 9 * 45")
        case True
        with False "1"(2) have "r = Return (np_puzzle_to_string ?a)" by (simp add: Let_def)
        then show ?thesis by simp
      next
        case nosum: False
        with False "1"(2) have "f ?p ?a = Some r" by (simp add: Let_def)
        from "1"(1) [OF this] pass show ?thesis
          by (cases r) (auto intro: cube_le_trans)
      qed
    qed
  qed
qed

lemma unique_combinations_options_idx:
  assumes "options_idx p a = Inr idxs"
  obtains comb combs where "itertools_product idxs = comb # combs"
    "unique_combinations idxs = Inr (map (\<lambda>c. (None, c)) comb # later_yields comb combs)"
proof -
  have "\<forall>xs \<in> set idxs. xs \<noteq> []"
    using options_idx_nth(3) [OF assms] by (auto simp: in_set_conv_nth)
  from itertools_product_nonempty [OF this] obtain comb combs
    where "itertools_product idxs = comb # combs"
    by (cases "itertools_product idxs") auto
  then show ?thesis
    using that by (simp add: unique_combinations_def)
qed

lemma search_states:
  assumes inv: "propagation_inv p a" and oi: "options_idx p a = Inr idxs"
    and u: "unique_combinations idxs = Inr (first # rest)" and k: "k \<le> length rest"
  shows "\<exists>comb \<in> set (itertools_product idxs).
    apply_yields (take k rest) (fold set_up_first first a) = Inr (assignment comb a)"
proof -
  from unique_combinations_options_idx [OF oi] obtain comb combs
    where prod: "itertools_product idxs = comb # combs"
      and u': "unique_combinations idxs = Inr (map (\<lambda>c. (None, c)) comb # later_yields comb combs)"
    by blast
  from u u' have first: "first = map (\<lambda>c. (None, c)) comb" and rest: "rest = later_yields comb combs"
    by simp_all
  from inv have sh: "shape_is 9 9 9 a" by (simp add: propagation_inv_def)
  have cells: "\<forall>x \<in> set (comb # combs). map cell_of x = unknown_cells p"
    using options_idx_comb(1) [OF oi] prod by simp
  have k': "k \<le> length combs" using k rest by (simp add: later_yields_length)
  have "apply_yields (take k rest) (fold set_up_first first a) =
      Inr (assignment ((comb # combs) ! k) a)"
    unfolding first rest assignment_def [symmetric]
    by (rule apply_yields_take [OF sh cells distinct_unknown_cells k'])
  moreover have "(comb # combs) ! k \<in> set (itertools_product idxs)"
    unfolding prod using k' by (intro nth_mem) simp
  ultimately show ?thesis by blast
qed

text \<open>
  Claim C8. Parsing establishes the invariant of the loop (an indicator array of shape
  (9, 9, 9) whose grid of digits is the one computed from it). Under the invariant a full
  pass keeps the invariant and only clears candidates: every entry after the pass is at
  most the entry before it (the bit that a known cell sets back was set when the pass
  began), so that no cell has more candidates than before; the same holds from the start
  of the loop to its \<^verbatim>\<open>break\<close>. In the search, the set-up of the first yield and every
  later yield applied in order give an array in which each cell holds exactly one digit,
  one that was a candidate after the propagation.
\<close>

theorem candidates_never_increase:
  "(string_to_np_puzzle s = Inr (p, a) \<longrightarrow> propagation_inv p a) \<and>
   (propagation_inv p a \<longrightarrow>
      propagation_inv (puzzle_of_options (propagation_pass p a)) (propagation_pass p a) \<and>
      cube_le (propagation_pass p a) a \<and>
      (\<forall>i<9. \<forall>j<9. digits_set (propagation_pass p a ! i ! j) \<le> digits_set (a ! i ! j))) \<and>
   (propagation_inv p a \<and> propagate p a = Some (Break p' a') \<longrightarrow>
      propagation_inv p' a' \<and> cube_le a' a) \<and>
   (propagation_inv p a \<and> options_idx p a = Inr idxs \<and>
    unique_combinations idxs = Inr (first # rest) \<longrightarrow>
      (\<forall>k \<le> length rest. \<exists>b. apply_yields (take k rest) (fold set_up_first first a) = Inr b \<and>
          one_hot_cube b \<and> cube_le b a \<and>
          (\<forall>i<9. \<forall>j<9. digits_set (b ! i ! j) = 1 \<and>
             digits_set (b ! i ! j) \<le> digits_set (a ! i ! j))))"
proof (intro conjI impI allI)
  assume "string_to_np_puzzle s = Inr (p, a)"
  then show "propagation_inv p a" by (rule string_to_np_puzzle_inv)
next
  assume inv: "propagation_inv p a"
  note pass = propagation_pass_le [OF inv]
  show "propagation_inv (puzzle_of_options (propagation_pass p a)) (propagation_pass p a)"
    and "cube_le (propagation_pass p a) a"
    using pass by simp_all
  fix i j :: nat
  assume "i < 9" "j < 9"
  then show "digits_set (propagation_pass p a ! i ! j) \<le> digits_set (a ! i ! j)"
    using pass inv by (intro cube_le_digits_set) (simp_all add: propagation_inv_def)
next
  assume h: "propagation_inv p a \<and> propagate p a = Some (Break p' a')"
  then show "propagation_inv p' a'" using propagate_Break by blast
  from h show "cube_le a' a" using propagate_exit_le [of p a "Break p' a'"] by simp
next
  fix k
  assume h: "propagation_inv p a \<and> options_idx p a = Inr idxs \<and>
    unique_combinations idxs = Inr (first # rest)" and k: "k \<le> length rest"
  then have inv: "propagation_inv p a" and oi: "options_idx p a = Inr idxs"
    and u: "unique_combinations idxs = Inr (first # rest)" by simp_all
  from search_states [OF inv oi u k] obtain comb
    where c: "comb \<in> set (itertools_product idxs)"
      and b: "apply_yields (take k rest) (fold set_up_first first a) = Inr (assignment comb a)"
    by blast
  note n = assignment_narrows [OF inv oi c]
  from inv have sh: "shape_is 9 9 9 a" and ind: "indicator_cube a"
    by (simp_all add: propagation_inv_def)
  from n(1) have shb: "shape_is 9 9 9 (assignment comb a)"
    and indb: "indicator_cube (assignment comb a)"
    and sums: "all_eq1 (sum_axis2 (assignment comb a))"
    by (simp_all add: one_hot_cube_def)
  have "digits_set (assignment comb a ! i ! j) = 1 \<and>
      digits_set (assignment comb a ! i ! j) \<le> digits_set (a ! i ! j)" if "i < 9" "j < 9" for i j
  proof -
    have "sum_list (assignment comb a ! i ! j) = 1"
      using sums that by (simp add: all_eq1_sum_axis2 [OF shb])
    then have "digits_set (assignment comb a ! i ! j) = 1"
      using digits_set_sum [OF shb indb that] by simp
    then show ?thesis
      using cube_le_digits_set [OF shb indb sh ind n(2) that] by simp
  qed
  with b n show "\<exists>b. apply_yields (take k rest) (fold set_up_first first a) = Inr b \<and>
          one_hot_cube b \<and> cube_le b a \<and>
          (\<forall>i<9. \<forall>j<9. digits_set (b ! i ! j) = 1 \<and>
             digits_set (b ! i ! j) \<le> digits_set (a ! i ! j))"
    by blast
qed

lemma validate_assignment:
  assumes "propagation_inv p a" "options_idx p a = Inr idxs" "comb \<in> set (itertools_product idxs)"
  shows "validate_solution (assignment comb a) = Inr (legal (assignment comb a))"
  using assignment_narrows(1) [OF assms]
  by (intro validate_solution_Inr) (simp_all add: one_hot_cube_def)

lemma iterate_options_later_yields:
  assumes inv: "propagation_inv p a" and oi: "options_idx p a = Inr idxs"
    and mem: "set (comb # combs) \<subseteq> set (itertools_product idxs)"
  shows "iterate_options (later_yields comb combs) (assignment comb a) =
    (case find (\<lambda>c. legal (assignment c a)) combs of
       None \<Rightarrow> Inr None
     | Some c \<Rightarrow> Inr (Some (np_puzzle_to_string (assignment c a))))"
  using mem
proof (induction combs arbitrary: comb)
  case Nil
  then show ?case by simp
next
  case (Cons c combs)
  from inv have sh: "shape_is 9 9 9 a" by (simp add: propagation_inv_def)
  have cc: "comb \<in> set (itertools_product idxs)" "c \<in> set (itertools_product idxs)"
    using Cons.prems by simp_all
  have "map cell_of comb = map cell_of c" "distinct (map cell_of ([] @ comb))"
    using options_idx_comb(1) [OF oi cc(1)] options_idx_comb(1) [OF oi cc(2)]
      distinct_unknown_cells [of p] by simp_all
  from apply_changes_pairs [OF sh this]
  have ch: "apply_changes (map (\<lambda>(c, p). (Some p, c)) (filter (\<lambda>(c, p). c \<noteq> p) (zip c comb)))
      (assignment comb a) = Inr (assignment c a)"
    by simp
  have ih: "iterate_options (later_yields c combs) (assignment c a) =
    (case find (\<lambda>c. legal (assignment c a)) combs of
       None \<Rightarrow> Inr None
     | Some c \<Rightarrow> Inr (Some (np_puzzle_to_string (assignment c a))))"
    using Cons.prems by (intro Cons.IH) simp
  show ?case
    using ch validate_assignment [OF inv oi cc(2)] ih by simp
qed

text \<open>
  Under the invariant, when every unknown cell has a candidate left, the search raises
  nothing: it returns the string of the first combination of the product whose assignment
  is legal, and \<^verbatim>\<open>None\<close> when there is none.
\<close>

lemma search_first_legal:
  assumes inv: "propagation_inv p a" and oi: "options_idx p a = Inr idxs"
  shows "search p a =
    (case find (\<lambda>c. legal (assignment c a)) (itertools_product idxs) of
       None \<Rightarrow> Inr None
     | Some c \<Rightarrow> Inr (Some (np_puzzle_to_string (assignment c a))))"
proof -
  from unique_combinations_options_idx [OF oi] obtain comb combs
    where prod: "itertools_product idxs = comb # combs"
      and u: "unique_combinations idxs = Inr (map (\<lambda>c. (None, c)) comb # later_yields comb combs)"
    by blast
  have c: "comb \<in> set (itertools_product idxs)" using prod by simp
  have "set (comb # combs) \<subseteq> set (itertools_product idxs)" using prod by simp
  note it = iterate_options_later_yields [OF inv oi this]
  show ?thesis
    using validate_assignment [OF inv oi c] it
    by (simp add: search_def oi u prod Let_def assignment_def [symmetric])
qed

lemma one_blank_grid_yields:
  "case string_to_np_puzzle one_blank_grid of
     Inr (p, a) \<Rightarrow>
       (case options_idx p a of
          Inr idxs \<Rightarrow>
            (case unique_combinations idxs of
               Inr (first # rest) \<Rightarrow> length rest = 8
             | _ \<Rightarrow> False)
        | Inl e \<Rightarrow> False)
   | Inl e \<Rightarrow> False"
  by code_simp

theorem candidates_never_increase_witness:
  "(\<exists>p a idxs first rest. string_to_np_puzzle one_blank_grid = Inr (p, a) \<and>
      propagation_inv p a \<and> cube_le (propagation_pass p a) a \<and>
      options_idx p a = Inr idxs \<and> unique_combinations idxs = Inr (first # rest) \<and>
      length rest = 8 \<and>
      (\<exists>b. apply_yields (take 8 rest) (fold set_up_first first a) = Inr b \<and>
         one_hot_cube b \<and> cube_le b a)) \<and>
   (\<exists>p a p' a'. string_to_np_puzzle contradictory_grid = Inr (p, a) \<and>
      propagate p a = Some (Break p' a') \<and> propagation_inv p' a' \<and> cube_le a' a)"
proof
  note y = one_blank_grid_yields
  from y obtain p a where pa: "string_to_np_puzzle one_blank_grid = Inr (p, a)"
    by (cases "string_to_np_puzzle one_blank_grid") auto
  from y pa obtain idxs where oi: "options_idx p a = Inr idxs"
    by (cases "options_idx p a") auto
  from y pa oi obtain ys where ys: "unique_combinations idxs = Inr ys"
    by (cases "unique_combinations idxs") auto
  from y pa oi ys obtain first rest where u: "unique_combinations idxs = Inr (first # rest)"
    and l: "length rest = 8"
    by (cases ys) auto
  note t = candidates_never_increase [of one_blank_grid p a p a idxs first rest]
  from t pa have inv: "propagation_inv p a" by blast
  with t have le: "cube_le (propagation_pass p a) a" by blast
  from t inv oi u l
  have "\<exists>b. apply_yields (take 8 rest) (fold set_up_first first a) = Inr b \<and>
         one_hot_cube b \<and> cube_le b a"
    by (metis order_refl)
  with pa inv le oi u l
  show "\<exists>p a idxs first rest. string_to_np_puzzle one_blank_grid = Inr (p, a) \<and>
      propagation_inv p a \<and> cube_le (propagation_pass p a) a \<and>
      options_idx p a = Inr idxs \<and> unique_combinations idxs = Inr (first # rest) \<and>
      length rest = 8 \<and>
      (\<exists>b. apply_yields (take 8 rest) (fold set_up_first first a) = Inr b \<and>
         one_hot_cube b \<and> cube_le b a)"
    by blast
next
  from contradictory_grid_exit obtain p' a'
    where e: "loop_exit_of contradictory_grid = Some (Break p' a')"
    by (rule case_exitE)
  from loop_exit_of_Break [OF e] obtain p a
    where pa: "string_to_np_puzzle contradictory_grid = Inr (p, a)"
      and pr: "propagate p a = Some (Break p' a')"
    by blast
  note t = candidates_never_increase [of contradictory_grid p a p' a' "[]" "[]" "[]"]
  from t pa have inv: "propagation_inv p a" by blast
  with t pr have "propagation_inv p' a' \<and> cube_le a' a" by blast
  with pa pr
  show "\<exists>p a p' a'. string_to_np_puzzle contradictory_grid = Inr (p, a) \<and>
      propagate p a = Some (Break p' a') \<and> propagation_inv p' a' \<and> cube_le a' a"
    by blast
qed

end
